theory Spec2Isabelle
  imports Complex_Main "HOL-Library.Signed_Division" "HOL-Library.Char_ord"
    "HOL-Library.Multiset"
    "HOL-Library.List_Lexorder"
begin

section \<open>Characters and text (Utils, <cctype>)\<close>

text \<open>
  A C++ \<open>char\<close> is one byte, as a HOL \<^typ>\<open>char\<close> is, and a \<open>std::string\<close> is a
  \<^typ>\<open>string\<close>. The classification functions of \<open><cctype>\<close> are those of the
  default "C" locale: only the 52 ASCII letters are alphabetic. Bytes above 127 are
  classified as non-alphabetic and left alone by \<open>toupper\<close>/\<open>tolower\<close>.
\<close>

definition isupper :: "char \<Rightarrow> bool" where
  "isupper c \<longleftrightarrow> 65 \<le> (of_char c :: nat) \<and> (of_char c :: nat) \<le> 90"

definition islower :: "char \<Rightarrow> bool" where
  "islower c \<longleftrightarrow> 97 \<le> (of_char c :: nat) \<and> (of_char c :: nat) \<le> 122"

definition isalpha :: "char \<Rightarrow> bool" where
  "isalpha c \<longleftrightarrow> isupper c \<or> islower c"

definition toupper :: "char \<Rightarrow> char" where
  "toupper c = (if islower c then char_of ((of_char c :: nat) - 32) else c)"

definition tolower :: "char \<Rightarrow> char" where
  "tolower c = (if isupper c then char_of ((of_char c :: nat) + 32) else c)"

text \<open>\<open>Utils::toUpperCase\<close>, \<open>Utils::removeNonAlpha\<close>, \<open>Utils::normalizeText\<close>.\<close>

definition toUpperCase :: "string \<Rightarrow> string" where
  "toUpperCase text = map toupper text"

definition removeNonAlpha :: "string \<Rightarrow> string" where
  "removeNonAlpha text = filter isalpha text"

definition normalizeText :: "string \<Rightarrow> string" where
  "normalizeText text = toUpperCase (removeNonAlpha text)"

section \<open>CaesarBreaker: shifting, decrypt, encrypt\<close>

text \<open>
  \<open>caesarShiftChar\<close> computes \<open>(c - base + shift) % 26 + base\<close> on C++ \<open>int\<close>s and
  narrows the result to \<open>char\<close>. The operator \<open>%\<close> truncates towards zero, which is
  \<open>smod\<close>; the narrowing cast keeps the low byte, which is \<^const>\<open>char_of\<close> on
  \<^typ>\<open>int\<close>. Shifts are far from the bounds of a 32-bit \<open>int\<close> in every use
  (keys are 0..26), so \<^typ>\<open>int\<close> stands for \<open>int\<close>.
\<close>

definition caesarShiftChar :: "char \<Rightarrow> int \<Rightarrow> char" where
  "caesarShiftChar c shift =
     (if \<not> isalpha c then c
      else let base = (if isupper c then 65 else 97) :: int
           in char_of ((of_char c - base + shift) smod 26 + base))"

definition caesarShift :: "string \<Rightarrow> int \<Rightarrow> string" where
  "caesarShift text shift = map (\<lambda>c. caesarShiftChar c shift) text"

definition CaesarBreaker_decrypt :: "string \<Rightarrow> int \<Rightarrow> string" where
  "CaesarBreaker_decrypt ciphertext key = caesarShift ciphertext key"

definition CaesarBreaker_encrypt :: "string \<Rightarrow> int \<Rightarrow> string" where
  "CaesarBreaker_encrypt plaintext key = caesarShift plaintext (26 - key)"

text \<open>
  The rotation the specification speaks of, written from its words: a letter moves by
  \<open>k\<close> places (backwards for negative \<open>k\<close>) around the 26 letters of its own case, and
  any other character stays.
\<close>

definition rotate_within_case :: "int \<Rightarrow> char \<Rightarrow> char" where
  "rotate_within_case k c =
     (if isupper c then char_of (65 + (of_char c - 65 + k) mod 26)
      else if islower c then char_of (97 + (of_char c - 97 + k) mod 26)
      else c)"

section \<open>VigenereBreaker: encrypt and decrypt\<close>

definition charToShift :: "char \<Rightarrow> int" where
  "charToShift c = (if isalpha c then of_char (toupper c) - 65 else 0)"

definition vigenereShift :: "char \<Rightarrow> int \<Rightarrow> char" where
  "vigenereShift c shift =
     (if \<not> isalpha c then c
      else let base = (if isupper c then 65 else 97) :: int
           in char_of ((of_char c - base + shift) smod 26 + base))"

text \<open>
  The loops of \<open>encrypt\<close> and \<open>decrypt\<close> run an index \<open>i\<close> over the whole input; the
  functions below are the loops from index \<open>i\<close> on, over the characters still to come.
\<close>

fun encrypt_from :: "string \<Rightarrow> nat \<Rightarrow> string \<Rightarrow> string" where
  "encrypt_from key i [] = []"
| "encrypt_from key i (c # cs) =
     (if isalpha c
      then vigenereShift c (charToShift (toupper (key ! (i mod length key))))
      else c) # encrypt_from key (Suc i) cs"

fun decrypt_from :: "string \<Rightarrow> nat \<Rightarrow> string \<Rightarrow> string" where
  "decrypt_from key i [] = []"
| "decrypt_from key i (c # cs) =
     (if isalpha c
      then vigenereShift c (26 - charToShift (toupper (key ! (i mod length key))))
      else c) # decrypt_from key (Suc i) cs"

definition VigenereBreaker_encrypt :: "string \<Rightarrow> string \<Rightarrow> string" where
  "VigenereBreaker_encrypt plaintext key =
     (if key = [] then plaintext else encrypt_from key 0 plaintext)"

definition VigenereBreaker_decrypt :: "string \<Rightarrow> string \<Rightarrow> string" where
  "VigenereBreaker_decrypt ciphertext key =
     (if key = [] then ciphertext else decrypt_from key 0 ciphertext)"

section \<open>Ordered maps (\<open>std::map\<close>)\<close>

text \<open>
  A \<open>std::map\<close> keeps its entries in ascending key order and that is the order in
  which the code iterates over it, so a map is modelled as the list of its entries in
  key order. \<open>m.find(k)\<close> is \<^const>\<open>map_of\<close>; \<open>m[k] = v\<close> is \<open>map_put\<close>; reading \<open>m[k]\<close>
  of a missing key gives the value-initialised default, which \<open>map_get\<close> takes as its
  first argument. Keys are letters, strings of letters and small numbers, on which the
  orders of \<open>char\<close>, \<open>std::string\<close> and \<open>int\<close> are those of HOL.
\<close>

fun map_put :: "'k::linorder \<Rightarrow> 'v \<Rightarrow> ('k \<times> 'v) list \<Rightarrow> ('k \<times> 'v) list" where
  "map_put k v [] = [(k, v)]"
| "map_put k v ((k', v') # m) =
     (if k < k' then (k, v) # (k', v') # m
      else if k = k' then (k, v) # m
      else (k', v') # map_put k v m)"

definition map_get :: "'v \<Rightarrow> ('k \<times> 'v) list \<Rightarrow> 'k \<Rightarrow> 'v" where
  "map_get d m k = (case map_of m k of None \<Rightarrow> d | Some v \<Rightarrow> v)"

section \<open>Machine arithmetic\<close>

text \<open>
  A C++ \<open>int\<close> has 32 bits. The counters of the program are modelled as \<^typ>\<open>int\<close>: a
  counter that is only incremented stays in range as long as the text has fewer than
  \<open>2^31\<close> characters. A product of two counters leaves the range much earlier, from
  46342 letters on; the language leaves the result of such a product undefined, and the
  model takes the value that the usual compilers produce, the product reduced to 32 bits
  in two's complement.
\<close>

definition int32 :: "int \<Rightarrow> int" where
  "int32 x = (x + 2147483648) mod 4294967296 - 2147483648"

text \<open>
  A \<open>double\<close> is modelled as a \<^typ>\<open>real\<close>, and its sums, products, quotients and
  comparisons as the exact ones, with one exception: the percentages that
  \<open>normalizeFrequencies\<close> and \<open>findCommonBigrams\<close> compute from two counters are rounded as
  the processor rounds them (IEEE 754 binary64, to the nearest value with a significand
  of 53 bits, ties to the even significand), because whether the percentages of a table
  add up to 100 depends on it. For this a \<open>double\<close> is a pair
  \<open>(m, e)\<close> that stands for \<open>m * 2^e\<close>. The exponent is not bounded, and a quotient by 0
  has no meaning: overflow, subnormal numbers and a divisor 0 do not occur in the
  quotients and products that are rounded here.

  \<open>normalize53\<close> scales the quotient \<open>p / q\<close> of two positive integers by powers of two
  until it lies in \<open>[2^52, 2^53)\<close>, with \<open>lo = 2^52 * q\<close>; \<open>nearest_even\<close> is the integer
  nearest to \<open>p / q\<close>; \<open>round53 p q e\<close> is the double nearest to \<open>p / q * 2^e\<close>.
\<close>

type_synonym double = "int \<times> int"

definition double_value :: "double \<Rightarrow> real" where
  "double_value d = (case d of (m, e) \<Rightarrow> of_int m * 2 powi e)"

fun normalize53 :: "nat \<Rightarrow> int \<Rightarrow> int \<Rightarrow> int \<Rightarrow> int \<Rightarrow> int \<times> int \<times> int" where
  "normalize53 0 p q lo e = (p, q, e)"
| "normalize53 (Suc fuel) p q lo e =
     (if p < lo then normalize53 fuel (2 * p) q lo (e - 1)
      else if 2 * lo \<le> p then normalize53 fuel p (2 * q) (2 * lo) (e + 1)
      else (p, q, e))"

definition nearest_even :: "int \<Rightarrow> int \<Rightarrow> int" where
  "nearest_even p q =
     (let d = p div q; r = p mod q
      in if 2 * r < q then d else if q < 2 * r then d + 1 else if even d then d else d + 1)"

definition round53 :: "int \<Rightarrow> int \<Rightarrow> int \<Rightarrow> double" where
  "round53 p q e =
     (if p = 0 then (0, 0)
      else case normalize53 2200 \<bar>p\<bar> \<bar>q\<bar> (4503599627370496 * \<bar>q\<bar>) e of
             (p', q', e') \<Rightarrow> (sgn p * sgn q * nearest_even p' q', e'))"

text \<open>An \<open>int\<close> converts to a \<open>double\<close> without rounding.\<close>

definition double_of_int :: "int \<Rightarrow> double" where
  "double_of_int n = (n, 0)"

definition double_div :: "double \<Rightarrow> double \<Rightarrow> double" where
  "double_div a b = (case a of (m1, e1) \<Rightarrow> case b of (m2, e2) \<Rightarrow> round53 m1 m2 (e1 - e2))"

definition double_mult :: "double \<Rightarrow> double \<Rightarrow> double" where
  "double_mult a b =
     (case a of (m1, e1) \<Rightarrow> case b of (m2, e2) \<Rightarrow> round53 (m1 * m2) 1 (e1 + e2))"

section \<open>FrequencyAnalyzer\<close>

text \<open>
  The counting loop shared by \<open>calculateFrequency\<close> and \<open>calculateIndexOfCoincidence\<close>:
  one step per character, on the pair of \<open>counts\<close> and \<open>totalAlphaChars\<close>.
\<close>

definition countChar :: "(char \<times> int) list \<times> int \<Rightarrow> char \<Rightarrow> (char \<times> int) list \<times> int" where
  "countChar acc c =
     (case acc of (counts, totalAlphaChars) \<Rightarrow>
        if isalpha c
        then (map_put (toupper c) (map_get 0 counts (toupper c) + 1) counts, totalAlphaChars + 1)
        else (counts, totalAlphaChars))"

definition countLetters :: "string \<Rightarrow> (char \<times> int) list \<times> int" where
  "countLetters text = foldl countChar ([], 0) text"

text \<open>
  \<open>(static_cast<double>(pair.second) / totalChars) * 100.0\<close>, and the same with
  \<open>totalBigrams\<close>: a quotient and a product of doubles, each rounded.
\<close>

definition percentage :: "int \<Rightarrow> int \<Rightarrow> real" where
  "percentage n totalChars =
     double_value (double_mult (double_div (double_of_int n) (double_of_int totalChars))
                               (double_of_int 100))"

definition normalizeFrequencies :: "(char \<times> int) list \<Rightarrow> int \<Rightarrow> (char \<times> real) list" where
  "normalizeFrequencies frequencies totalChars =
     (if totalChars = 0 then []
      else map (\<lambda>(c, n). (c, percentage n totalChars)) frequencies)"

definition calculateFrequency :: "string \<Rightarrow> (char \<times> real) list" where
  "calculateFrequency text =
     (case countLetters text of (counts, totalAlphaChars) \<Rightarrow>
        normalizeFrequencies counts totalAlphaChars)"

text \<open>The 26 values of the loop variable of \<open>for (char c = 'A'; c <= 'Z'; c++)\<close>.\<close>

definition letters_A_Z :: "char list" where
  "letters_A_Z = map char_of [65 ..< 91 :: nat]"

definition chiSquaredTest :: "(char \<times> real) list \<Rightarrow> (char \<times> real) list \<Rightarrow> real" where
  "chiSquaredTest observed expected =
     sum_list (map (\<lambda>c. let obs = map_get 0 observed c; exp = map_get 0 expected c
                         in if exp > 0 then ((obs - exp) * (obs - exp)) / exp else 0)
                   letters_A_Z)"

text \<open>
  In \<open>ic += ni * (ni - 1)\<close> and \<open>ic /= (totalAlphaChars * (totalAlphaChars - 1))\<close> the
  products are products of \<open>int\<close>s, converted to \<open>double\<close> afterwards.
\<close>

definition calculateIndexOfCoincidence :: "string \<Rightarrow> real" where
  "calculateIndexOfCoincidence text =
     (case countLetters text of (counts, totalAlphaChars) \<Rightarrow>
        if totalAlphaChars \<le> 1 then 0
        else sum_list (map (\<lambda>(c, ni). real_of_int (int32 (ni * (ni - 1)))) counts)
             / real_of_int (int32 (totalAlphaChars * (totalAlphaChars - 1))))"

text \<open>
  \<open>languageFrequencies\<close> as the constructor fills it (\<open>initializeDefaultFrequencies\<close>);
  loading further tables from files is outside the model.
\<close>

definition english_frequencies :: "(char \<times> real) list" where
  "english_frequencies =
     [(CHR ''A'', 8.12), (CHR ''B'', 1.49), (CHR ''C'', 2.78), (CHR ''D'', 4.25),
      (CHR ''E'', 12.02), (CHR ''F'', 2.23), (CHR ''G'', 2.02), (CHR ''H'', 6.09),
      (CHR ''I'', 6.97), (CHR ''J'', 0.15), (CHR ''K'', 0.77), (CHR ''L'', 4.03),
      (CHR ''M'', 2.41), (CHR ''N'', 6.75), (CHR ''O'', 7.51), (CHR ''P'', 1.93),
      (CHR ''Q'', 0.10), (CHR ''R'', 5.99), (CHR ''S'', 6.33), (CHR ''T'', 9.06),
      (CHR ''U'', 2.76), (CHR ''V'', 0.98), (CHR ''W'', 2.36), (CHR ''X'', 0.15),
      (CHR ''Y'', 1.97), (CHR ''Z'', 0.07)]"

definition turkish_frequencies :: "(char \<times> real) list" where
  "turkish_frequencies =
     [(CHR ''A'', 11.92), (CHR ''B'', 2.65), (CHR ''C'', 0.96), (CHR ''D'', 4.87),
      (CHR ''E'', 8.91), (CHR ''F'', 0.41), (CHR ''G'', 1.24), (CHR ''H'', 1.16),
      (CHR ''I'', 8.60), (CHR ''J'', 0.00), (CHR ''K'', 4.68), (CHR ''L'', 5.92),
      (CHR ''M'', 3.75), (CHR ''N'', 7.23), (CHR ''O'', 2.72), (CHR ''P'', 0.84),
      (CHR ''Q'', 0.00), (CHR ''R'', 6.92), (CHR ''S'', 3.01), (CHR ''T'', 5.71),
      (CHR ''U'', 3.39), (CHR ''V'', 0.95), (CHR ''W'', 0.00), (CHR ''X'', 0.00),
      (CHR ''Y'', 3.34), (CHR ''Z'', 1.52)]"

definition languageFrequencies :: "(string \<times> (char \<times> real) list) list" where
  "languageFrequencies = [(''english'', english_frequencies), (''turkish'', turkish_frequencies)]"

definition getLanguageFrequencies :: "string \<Rightarrow> (char \<times> real) list" where
  "getLanguageFrequencies language = map_get [] languageFrequencies language"

definition scoreEnglishness :: "string \<Rightarrow> real" where
  "scoreEnglishness text =
     (let textFreq = calculateFrequency text;
          englishFreq = getLanguageFrequencies ''english''
      in if englishFreq = [] then 0
         else 1 / (1 + chiSquaredTest textFreq englishFreq))"

section \<open>Failures\<close>

text \<open>
  What a call can end in instead of a result. The string index expressions of the code
  are of type \<open>size_t\<close>, so \<open>length() - 1\<close> on an empty string is a huge number, the
  loop runs past the end and \<open>substr\<close> throws \<open>std::out_of_range\<close>. A random search
  is run on a finite supply of random draws, and ends in \<open>NoMoreDraws\<close> when the
  supply does not last.
\<close>

datatype failure = OutOfRange | DivisionByZero | NoMoreDraws

text \<open>\<open>s.substr(pos, n)\<close> for \<open>pos \<le> s.length()\<close>.\<close>

definition substr :: "string \<Rightarrow> nat \<Rightarrow> nat \<Rightarrow> string" where
  "substr s pos n = take n (drop pos s)"

text \<open>
  \<open>std::sort\<close> with the comparator \<open>a.second > b.second\<close>: descending by the second
  component. The language leaves the relative order of entries with equal scores open.
  The model keeps them in the order of the input, as the insertion sort does that the
  GNU library uses for up to 16 entries; on more entries that library may order equal
  scores differently. The general statements below use only that the result is a
  rearrangement of the input in descending order of the scores, so they hold for every
  order of the entries with equal scores; the scores of the result, position by
  position, are the same for every such order. Where a sorted list is computed for a
  given input, it has at most 16 entries, or what is stated is about its scores or
  about leading entries whose scores are strictly greater than those of all entries
  after them.
\<close>

definition sort_by_score :: "('a \<times> real) list \<Rightarrow> ('a \<times> real) list" where
  "sort_by_score xs = sort_key (\<lambda>p. - snd p) xs"

section \<open>Utils: input validation and splitting\<close>

definition isValidInput :: "string \<Rightarrow> bool" where
  "isValidInput text =
     (if text = [] then False
      else let alphaCount = int (length (filter isalpha text))
           in real_of_int alphaCount \<ge> real (length text) * 0.5)"

text \<open>
  \<open>Utils::split\<close> reads the tokens between delimiters with \<open>std::getline\<close> and drops
  the empty ones. \<open>tokens\<close> cuts the text at every delimiter, with \<open>cur\<close> the token
  being read.
\<close>

fun tokens :: "char \<Rightarrow> string \<Rightarrow> string \<Rightarrow> string list" where
  "tokens d cur [] = [cur]"
| "tokens d cur (c # cs) = (if c = d then cur # tokens d [] cs else tokens d (cur @ [c]) cs)"

definition split :: "string \<Rightarrow> char \<Rightarrow> string list" where
  "split text delimiter = filter (\<lambda>token. token \<noteq> []) (tokens delimiter [] text)"

section \<open>FrequencyAnalyzer: bigrams\<close>

definition countBigram :: "string \<Rightarrow> (string \<times> int) list \<Rightarrow> nat \<Rightarrow> (string \<times> int) list" where
  "countBigram normalizedText bigramCounts i =
     (let bigram = substr normalizedText i 2
      in map_put bigram (map_get 0 bigramCounts bigram + 1) bigramCounts)"

definition findCommonBigrams :: "string \<Rightarrow> nat \<Rightarrow> failure + (string \<times> real) list" where
  "findCommonBigrams text cnt =
     (let normalizedText = normalizeText text
      in if normalizedText = [] then Inl OutOfRange
         else
           let bigramCounts = foldl (countBigram normalizedText) [] [0 ..< length normalizedText - 1];
               totalBigrams = int (length normalizedText) - 1;
               bigrams = map (\<lambda>(b, n). (b, percentage n totalBigrams)) bigramCounts
           in Inr (take cnt (sort_by_score bigrams)))"

section \<open>The solvers' common base (CipherBreaker)\<close>

text \<open>
  The fields of the base class that the analysis reads or writes. Console output and
  the elapsed time are not modelled, so \<open>verbose\<close> and \<open>analysisTimeMs\<close> are left out.
\<close>

record CipherBreaker =
  confidence :: real
  targetLanguage :: string

definition validateInput :: "string \<Rightarrow> bool" where
  "validateInput ciphertext =
     (if ciphertext = [] then False
      else if \<not> isValidInput ciphertext then False
      else True)"

definition updateConfidence :: "real \<Rightarrow> real \<Rightarrow> 'a CipherBreaker_scheme \<Rightarrow> 'a CipherBreaker_scheme" where
  "updateConfidence score maxScore st =
     (if maxScore > 0
      then let c = (score / maxScore) * 100;
               c' = (if c > 100 then 100 else c);
               c'' = (if c' < 0 then 0 else c')
           in st\<lparr>confidence := c''\<rparr>
      else st\<lparr>confidence := 0\<rparr>)"

section \<open>CaesarBreaker: scoring and key search\<close>

record CaesarBreaker = CipherBreaker +
  minTextLength :: int
  lastAnalysis :: "(int \<times> real) list"

text \<open>The state after the constructors have run.\<close>

definition new_CaesarBreaker :: CaesarBreaker where
  "new_CaesarBreaker =
     \<lparr>confidence = 0, targetLanguage = ''english'', minTextLength = 20, lastAnalysis = []\<rparr>"

definition calculateChiSquared :: "CaesarBreaker \<Rightarrow> string \<Rightarrow> real" where
  "calculateChiSquared st text =
     (let textFreq = calculateFrequency text;
          englishFreq = getLanguageFrequencies (targetLanguage st)
      in if englishFreq = [] then 1000
         else chiSquaredTest textFreq englishFreq)"

definition calculateICScore :: "string \<Rightarrow> real" where
  "calculateICScore text =
     (let ic = calculateIndexOfCoincidence text;
          englishIC = 0.067;
          diff = \<bar>ic - englishIC\<bar>
      in max 0 (1 - diff * 10))"

text \<open>\<open>haystack.find(needle) != npos\<close>.\<close>

fun contains :: "string \<Rightarrow> string \<Rightarrow> bool" where
  "contains [] needle = (needle = [])"
| "contains (c # cs) needle = (take (length needle) (c # cs) = needle \<or> contains cs needle)"

definition caesar_commonWords :: "string list" where
  "caesar_commonWords =
     [''THE'', ''AND'', ''FOR'', ''ARE'', ''BUT'', ''NOT'', ''YOU'', ''ALL'', ''CAN'', ''HER'',
      ''WAS'', ''ONE'', ''OUR'', ''OUT'', ''DAY'', ''GET'', ''HAS'', ''HIM'', ''HIS'', ''HOW'',
      ''ITS'', ''MAY'', ''NEW'', ''NOW'', ''OLD'', ''SEE'', ''TWO'', ''WHO'', ''BOY'', ''DID'',
      ''MAN'', ''OWN'', ''SAY'', ''SHE'', ''TOO'', ''USE'', ''THAT'', ''WITH'', ''FROM'',
      ''HAVE'', ''THIS'', ''WILL'', ''WHAT'', ''WHEN'', ''WHERE'', ''WHICH'', ''THERE'']"

definition commonBigrams :: "string list" where
  "commonBigrams = [''TH'', ''HE'', ''IN'', ''ER'', ''AN'', ''RE'', ''ED'', ''ND'', ''ON'', ''EN'']"

definition checkCommonPatterns :: "string \<Rightarrow> failure + real" where
  "checkCommonPatterns text =
     (let normalizedText = normalizeText text;
          foundWords = length (filter (contains normalizedText) caesar_commonWords);
          score = real foundWords / real (length caesar_commonWords)
      in case findCommonBigrams text 10 of
           Inl e \<Rightarrow> Inl e
         | Inr bigrams \<Rightarrow>
             let foundBigrams = length (filter (\<lambda>bigram. fst bigram \<in> set commonBigrams) bigrams);
                 score' = score + real foundBigrams / real (length commonBigrams) * 0.5
             in Inr (min 1 score'))"

definition normalizeScore :: "real \<Rightarrow> real \<Rightarrow> real \<Rightarrow> real" where
  "normalizeScore score minVal maxVal =
     (if maxVal \<le> minVal then 0
      else max 0 (min 1 ((score - minVal) / (maxVal - minVal))))"

definition scoreText :: "CaesarBreaker \<Rightarrow> string \<Rightarrow> failure + real" where
  "scoreText st text =
     (if int (length text) < minTextLength st then Inr 0
      else
        let chiScore = calculateChiSquared st text;
            icScore = calculateICScore text
        in case checkCommonPatterns text of
             Inl e \<Rightarrow> Inl e
           | Inr patternScore \<Rightarrow>
               Inr (normalizeScore (1 / (1 + chiScore)) 0 1 * 0.5
                    + icScore * 0.3
                    + patternScore * 0.2))"

text \<open>
  \<open>findPossibleKeys\<close> scores the 26 keys on worker threads, each thread taking a run of
  consecutive keys, collects the results thread by thread and sorts them by key: every
  key from 0 to 25 is scored once, whichever thread does it. \<open>scoreKeys\<close> is that
  scoring, in key order; an exception in a worker surfaces when its result is collected.
  The number of threads is \<open>min(26, hardware_concurrency())\<close>, and the keys per thread
  are computed by a division by that number, so the hardware concurrency \<open>hw\<close> is an
  input of the model.
\<close>

fun scoreKeys :: "CaesarBreaker \<Rightarrow> string \<Rightarrow> int list \<Rightarrow> failure + (int \<times> real) list" where
  "scoreKeys st normalizedText [] = Inr []"
| "scoreKeys st normalizedText (key # keys) =
     (case scoreText st (caesarShift normalizedText key) of
        Inl e \<Rightarrow> Inl e
      | Inr score \<Rightarrow>
          (case scoreKeys st normalizedText keys of
             Inl e \<Rightarrow> Inl e
           | Inr rest \<Rightarrow> Inr ((key, score) # rest)))"

text \<open>The last step of \<open>findPossibleKeys\<close>: confidence from the best two scores.\<close>

definition rankConfidence :: "(int \<times> real) list \<Rightarrow> CaesarBreaker \<Rightarrow> CaesarBreaker" where
  "rankConfidence keyScores st =
     (if length keyScores \<ge> 2
      then let bestScore = snd (keyScores ! 0);
               secondBest = snd (keyScores ! 1);
               scoreDiff = bestScore - secondBest
           in st\<lparr>confidence := min 100 (scoreDiff * 10 + 50)\<rparr>
      else st)"

definition findPossibleKeys ::
  "nat \<Rightarrow> CaesarBreaker \<Rightarrow> string \<Rightarrow> failure + ((int \<times> real) list \<times> CaesarBreaker)" where
  "findPossibleKeys hw st ciphertext =
     (let normalizedText = normalizeText ciphertext;
          numThreads = min 26 hw
      in if numThreads = 0 then Inl DivisionByZero
         else
           case scoreKeys st normalizedText [0 .. 25] of
             Inl e \<Rightarrow> Inl e
           | Inr results \<Rightarrow>
               let st1 = st\<lparr>lastAnalysis :=
                              foldl (\<lambda>m (k, v). map_put k v m) (lastAnalysis st) results\<rparr>;
                   byKey = sort_key fst results;
                   keyScores = sort_by_score byKey
               in Inr (keyScores, rankConfidence keyScores st1))"

definition findBestKey :: "nat \<Rightarrow> CaesarBreaker \<Rightarrow> string \<Rightarrow> failure + (int \<times> CaesarBreaker)" where
  "findBestKey hw st ciphertext =
     (case findPossibleKeys hw st ciphertext of
        Inl e \<Rightarrow> Inl e
      | Inr (keyScores, st') \<Rightarrow>
          if keyScores = [] then Inr (0, st') else Inr (fst (keyScores ! 0), st'))"

definition CaesarBreaker_breakCipher ::
  "nat \<Rightarrow> CaesarBreaker \<Rightarrow> string \<Rightarrow> failure + (string \<times> CaesarBreaker)" where
  "CaesarBreaker_breakCipher hw st ciphertext =
     (if \<not> validateInput ciphertext then Inr ([], st)
      else
        case findBestKey hw st ciphertext of
          Inl e \<Rightarrow> Inl e
        | Inr (bestKey, st') \<Rightarrow> Inr (CaesarBreaker_decrypt ciphertext bestKey, st'))"

text \<open>The clamp of the specification: \<open>x\<close> forced into \<open>[lo, hi]\<close>.\<close>

definition clamp :: "real \<Rightarrow> real \<Rightarrow> real \<Rightarrow> real" where
  "clamp x lo hi = (if x < lo then lo else if x > hi then hi else x)"

section \<open>SubstitutionBreaker: scoring\<close>

definition bigramFreq :: "(string \<times> real) list" where
  "bigramFreq =
     [(''TH'', 0.0271), (''HE'', 0.0233), (''IN'', 0.0203), (''ER'', 0.0178), (''AN'', 0.0161),
      (''RE'', 0.0141), (''ED'', 0.0117), (''ND'', 0.0107), (''ON'', 0.0106), (''EN'', 0.0105),
      (''AT'', 0.0103), (''OU'', 0.0102), (''IT'', 0.0100), (''IS'', 0.0098), (''OR'', 0.0091),
      (''TI'', 0.0089), (''AS'', 0.0087), (''TE'', 0.0087), (''ET'', 0.0076), (''NG'', 0.0076),
      (''OF'', 0.0075), (''AL'', 0.0074), (''DE'', 0.0070), (''SE'', 0.0068), (''LE'', 0.0066),
      (''SA'', 0.0063), (''SI'', 0.0062), (''AR'', 0.0062), (''VE'', 0.0058), (''RA'', 0.0057),
      (''LD'', 0.0057), (''UR'', 0.0056), (''TA'', 0.0056), (''RI'', 0.0055), (''NE'', 0.0055)]"

definition trigramFreq :: "(string \<times> real) list" where
  "trigramFreq =
     [(''THE'', 0.0181), (''AND'', 0.0073), (''ING'', 0.0072), (''HER'', 0.0036),
      (''HAT'', 0.0031), (''HIS'', 0.0031), (''THA'', 0.0031), (''ERE'', 0.0031),
      (''FOR'', 0.0028), (''ENT'', 0.0028), (''ION'', 0.0027), (''TER'', 0.0024),
      (''HAS'', 0.0024), (''YOU'', 0.0024), (''ITH'', 0.0023), (''VER'', 0.0022),
      (''ALL'', 0.0022), (''WIT'', 0.0021), (''THI'', 0.0021), (''TIO'', 0.0021),
      (''EST'', 0.0020), (''ARE'', 0.0019), (''HEN'', 0.0019), (''RST'', 0.0019),
      (''OUR'', 0.0018), (''OUT'', 0.0018), (''HAV'', 0.0018), (''ATE'', 0.0017),
      (''STH'', 0.0017), (''VED'', 0.0017)]"

definition commonWords :: "string list" where
  "commonWords =
     [''THE'', ''AND'', ''FOR'', ''ARE'', ''BUT'', ''NOT'', ''YOU'', ''ALL'', ''CAN'', ''HER'',
      ''WAS'', ''ONE'', ''OUR'', ''OUT'', ''DAY'', ''GET'', ''HAS'', ''HIM'', ''HIS'', ''HOW'',
      ''ITS'', ''MAY'', ''NEW'', ''NOW'', ''OLD'', ''SEE'', ''TWO'', ''WHO'', ''BOY'', ''DID'',
      ''MAN'', ''OWN'', ''SAY'', ''SHE'', ''TOO'', ''USE'', ''THAT'', ''WITH'', ''FROM'', ''THIS'',
      ''HAVE'', ''WILL'', ''WHAT'', ''WHEN'', ''WHERE'', ''WHICH'', ''THERE'', ''WOULD'', ''ABOUT'',
      ''AFTER'', ''FIRST'', ''NEVER'', ''THESE'', ''THINK'', ''WHERE'', ''BEING'', ''EVERY'',
      ''GREAT'', ''MIGHT'', ''SHALL'', ''STILL'', ''THOSE'', ''UNDER'', ''WHILE'', ''COULD'']"

text \<open>
  The n-gram loops run \<open>i\<close> from 0 while \<open>i < length() - n + 1\<close> in \<open>size_t\<close>. With
  fewer than \<open>n - 1\<close> letters the bound wraps around and \<open>substr\<close> throws as soon as
  \<open>i\<close> exceeds the length.
\<close>

definition calculateBigramScore :: "string \<Rightarrow> failure + real" where
  "calculateBigramScore text =
     (let normalizedText = normalizeText text
      in if length normalizedText < 1 then Inl OutOfRange
         else
           let windows = map (\<lambda>i. substr normalizedText i 2) [0 ..< length normalizedText - 1];
               score = sum_list (map (\<lambda>bigram. map_get 0 bigramFreq bigram) windows);
               totalBigrams = int (length windows)
           in Inr (if totalBigrams > 0 then score / real_of_int totalBigrams else 0))"

definition calculateTrigramScore :: "string \<Rightarrow> failure + real" where
  "calculateTrigramScore text =
     (let normalizedText = normalizeText text
      in if length normalizedText < 2 then Inl OutOfRange
         else
           let windows = map (\<lambda>i. substr normalizedText i 3) [0 ..< length normalizedText - 2];
               score = sum_list (map (\<lambda>trigram. map_get 0 trigramFreq trigram) windows);
               totalTrigrams = int (length windows)
           in Inr (if totalTrigrams > 0 then score / real_of_int totalTrigrams else 0))"

definition calculateWordScore :: "string \<Rightarrow> real" where
  "calculateWordScore text =
     (let words = split text (CHR '' '');
          counted = filter (\<lambda>w. length w \<ge> 3) (map normalizeText words);
          totalWords = int (length counted);
          foundWords = int (length (filter (\<lambda>w. w \<in> set commonWords) counted))
      in if totalWords > 0 then real_of_int foundWords / real_of_int totalWords else 0)"

definition calculateCombinedScore :: "real \<Rightarrow> real \<Rightarrow> real \<Rightarrow> real \<Rightarrow> real" where
  "calculateCombinedScore freqScore bigramScore trigramScore wordScore =
     freqScore * 0.3 + bigramScore * 0.3 + trigramScore * 0.2 + wordScore * 0.2"

definition SubstitutionBreaker_scorePlaintext :: "string \<Rightarrow> failure + real" where
  "SubstitutionBreaker_scorePlaintext plaintext =
     (let freqScore = scoreEnglishness plaintext
      in case calculateBigramScore plaintext of
           Inl e \<Rightarrow> Inl e
         | Inr bigramScore \<Rightarrow>
             (case calculateTrigramScore plaintext of
                Inl e \<Rightarrow> Inl e
              | Inr trigramScore \<Rightarrow>
                  let wordScore = calculateWordScore plaintext
                  in Inr (calculateCombinedScore freqScore bigramScore trigramScore wordScore)))"

definition VigenereBreaker_scorePlaintext :: "string \<Rightarrow> real" where
  "VigenereBreaker_scorePlaintext plaintext = scoreEnglishness plaintext"

text \<open>
  The fitness function of the specification, from its words: the weighted sum of the
  unigram fit (the englishness score), the bigram and trigram fits (the reference
  frequency of each n-gram window of the normalized text, which the specification uses
  for all statistics, 0 for an n-gram not in the table, averaged over the windows) and
  the word fit. The word fit is the fraction of the whitespace-delimited tokens of
  length 3 or more that are found verbatim in the common-word set: a token is a longest
  run of characters other than whitespace, and it is looked up as it stands. The
  specification does not say what an average over no window or a fraction of no token
  is; they are taken to be 0.
\<close>

definition ngramFit :: "nat \<Rightarrow> (string \<times> real) list \<Rightarrow> string \<Rightarrow> real" where
  "ngramFit n table text =
     (let t = normalizeText text;
          windows = map (\<lambda>i. take n (drop i t)) [0 ..< length t + 1 - n]
      in if windows = [] then 0
         else sum_list (map (\<lambda>w. case map_of table w of None \<Rightarrow> 0 | Some f \<Rightarrow> f) windows)
              / real (length windows))"

text \<open>Blank, tab, line feed, vertical tab, form feed, carriage return.\<close>

definition isspace :: "char \<Rightarrow> bool" where
  "isspace c \<longleftrightarrow> c \<in> {CHR '' '', CHR 0x09, CHR 0x0A, CHR 0x0B, CHR 0x0C, CHR 0x0D}"

text \<open>The whitespace-delimited tokens of a text, with \<open>token\<close> the one being read.\<close>

fun whitespace_tokens :: "string \<Rightarrow> string \<Rightarrow> string list" where
  "whitespace_tokens token [] = (if token = [] then [] else [token])"
| "whitespace_tokens token (c # cs) =
     (if isspace c then (if token = [] then [] else [token]) @ whitespace_tokens [] cs
      else whitespace_tokens (token @ [c]) cs)"

definition wordFit :: "string \<Rightarrow> real" where
  "wordFit text =
     (let long = filter (\<lambda>token. 3 \<le> length token) (whitespace_tokens [] text)
      in if long = [] then 0
         else real (length (filter (\<lambda>token. token \<in> set commonWords) long))
              / real (length long))"

definition fitness :: "string \<Rightarrow> real" where
  "fitness text =
     0.3 * scoreEnglishness text + 0.3 * ngramFit 2 bigramFreq text
     + 0.2 * ngramFit 3 trigramFreq text + 0.2 * wordFit text"

text \<open>
  A text reduced to its letters, in upper case, and its blanks: every other character
  is removed.
\<close>

definition letters_and_blanks :: "string \<Rightarrow> string" where
  "letters_and_blanks text = map toupper (filter (\<lambda>c. isalpha c \<or> c = CHR '' '') text)"

section \<open>SubstitutionBreaker: mappings\<close>

text \<open>A mapping is a \<open>std::map<char, char>\<close> from cipher letters to plain letters.\<close>

definition applyMapping :: "string \<Rightarrow> (char \<times> char) list \<Rightarrow> string" where
  "applyMapping text mapping =
     map (\<lambda>c. if isalpha c
               then (case map_of mapping (toupper c) of
                       Some mapped \<Rightarrow> if isupper c then mapped else tolower mapped
                     | None \<Rightarrow> c)
               else c) text"

definition scoreMapping :: "(char \<times> char) list \<Rightarrow> string \<Rightarrow> failure + real" where
  "scoreMapping mapping ciphertext =
     SubstitutionBreaker_scorePlaintext (applyMapping ciphertext mapping)"

definition completeMapping :: "(char \<times> char) list \<Rightarrow> (char \<times> char) list" where
  "completeMapping mapping =
     (let usedPlainChars = set (map snd mapping);
          unusedCipherChars = filter (\<lambda>c. map_of mapping c = None) letters_A_Z;
          unusedPlainChars = filter (\<lambda>c. c \<notin> usedPlainChars) letters_A_Z
      in foldl (\<lambda>result (c, p). map_put c p result) mapping
               (zip unusedCipherChars unusedPlainChars))"

definition generateMapping :: "string \<Rightarrow> string \<Rightarrow> (char \<times> char) list" where
  "generateMapping language ciphertext =
     (let normalizedText = normalizeText ciphertext;
          cipherFreq = calculateFrequency normalizedText;
          englishFreq = getLanguageFrequencies language;
          cipherSorted = sort_by_score cipherFreq;
          englishSorted = sort_by_score englishFreq;
          mapping = foldl (\<lambda>m (c, e). map_put (fst c) (fst e) m) []
                          (zip cipherSorted englishSorted)
      in completeMapping mapping)"

definition commonEnglishBigrams :: "string list" where
  "commonEnglishBigrams =
     [''TH'', ''HE'', ''IN'', ''ER'', ''AN'', ''RE'', ''ED'', ''ND'', ''ON'', ''EN'']"

text \<open>One round of the loop of \<open>improveMappingWithBigrams\<close>.\<close>

definition tryBigram ::
  "string \<Rightarrow> (char \<times> char) list \<Rightarrow> string \<times> string \<Rightarrow> failure + (char \<times> char) list" where
  "tryBigram ciphertext mapping pair =
     (case pair of (cipherBigram, englishBigram) \<Rightarrow>
        if length cipherBigram = 2 \<and> length englishBigram = 2
        then
          let cipher1 = cipherBigram ! 0; cipher2 = cipherBigram ! 1;
              english1 = englishBigram ! 0; english2 = englishBigram ! 1;
              testMapping = map_put cipher2 english2 (map_put cipher1 english1 mapping)
          in case scoreMapping testMapping ciphertext of
               Inl e \<Rightarrow> Inl e
             | Inr testScore \<Rightarrow>
                 (case scoreMapping mapping ciphertext of
                    Inl e \<Rightarrow> Inl e
                  | Inr score \<Rightarrow>
                      if testScore > score
                      then Inr (map_put cipher2 english2 (map_put cipher1 english1 mapping))
                      else Inr mapping)
        else Inr mapping)"

fun tryBigrams ::
  "string \<Rightarrow> (char \<times> char) list \<Rightarrow> (string \<times> string) list \<Rightarrow> failure + (char \<times> char) list" where
  "tryBigrams ciphertext mapping [] = Inr mapping"
| "tryBigrams ciphertext mapping (pair # pairs) =
     (case tryBigram ciphertext mapping pair of
        Inl e \<Rightarrow> Inl e
      | Inr mapping' \<Rightarrow> tryBigrams ciphertext mapping' pairs)"

definition improveMappingWithBigrams ::
  "(char \<times> char) list \<Rightarrow> string \<Rightarrow> failure + (char \<times> char) list" where
  "improveMappingWithBigrams initialMapping ciphertext =
     (let normalizedText = normalizeText ciphertext
      in case findCommonBigrams normalizedText 10 of
           Inl e \<Rightarrow> Inl e
         | Inr cipherBigrams \<Rightarrow>
             tryBigrams ciphertext initialMapping
               (zip (map fst cipherBigrams) commonEnglishBigrams))"

section \<open>SubstitutionBreaker: local search\<close>

text \<open>
  The random generator is modelled by the supply of raw values it is going to deliver,
  consumed from the front. A draw from \<open>uniform_int_distribution(0, n - 1)\<close> takes one
  raw value \<open>r\<close> and yields \<open>r mod n\<close>; a draw from \<open>uniform_real_distribution(0, 1)\<close>
  takes one raw value and yields its residue modulo \<open>2^32\<close> divided by \<open>2^32\<close>. Every
  sequence of outcomes of the real generator is the image of some supply.
\<close>

record SubstitutionBreaker = CipherBreaker +
  optimizationMethod :: string
  maxIterations :: int
  rng :: "nat list"
  optimizationHistory :: "(int \<times> real) list"

definition new_SubstitutionBreaker :: "nat list \<Rightarrow> SubstitutionBreaker" where
  "new_SubstitutionBreaker seed =
     \<lparr>confidence = 0, targetLanguage = ''english'', optimizationMethod = ''hybrid'',
      maxIterations = 1000, rng = seed, optimizationHistory = []\<rparr>"

text \<open>The loop \<open>while (idx1 == idx2) idx2 = dist(rng)\<close>, entered after the first draw of \<open>idx2\<close>.\<close>

fun drawDistinct :: "nat \<Rightarrow> nat \<Rightarrow> nat list \<Rightarrow> failure + (nat \<times> nat list)" where
  "drawDistinct n idx1 [] = Inl NoMoreDraws"
| "drawDistinct n idx1 (r # supply) =
     (if r mod n = idx1 then drawDistinct n idx1 supply else Inr (r mod n, supply))"

definition generateNeighborMapping ::
  "(char \<times> char) list \<Rightarrow> nat list \<Rightarrow> failure + ((char \<times> char) list \<times> nat list)" where
  "generateNeighborMapping mapping supply =
     (let cipherChars = map fst mapping
      in if length cipherChars < 2 then Inr (mapping, supply)
         else
           case supply of
             [] \<Rightarrow> Inl NoMoreDraws
           | r1 # supply1 \<Rightarrow>
               let idx1 = r1 mod length cipherChars
               in case drawDistinct (length cipherChars) idx1 supply1 of
                    Inl e \<Rightarrow> Inl e
                  | Inr (idx2, supply2) \<Rightarrow>
                      let char1 = cipherChars ! idx1;
                          char2 = cipherChars ! idx2;
                          temp = map_get (CHR 0x00) mapping char1;
                          neighbor1 = map_put char1 (map_get (CHR 0x00) mapping char2) mapping;
                          neighbor2 = map_put char2 temp neighbor1
                      in Inr (neighbor2, supply2))"

text \<open>The variables of the loop of \<open>hillClimbOptimization\<close>, and the members it writes.\<close>

record climb =
  currentMapping :: "(char \<times> char) list"
  currentScore :: real
  improvementCount :: int
  climb_rng :: "nat list"
  climb_history :: "(int \<times> real) list"

definition hillClimbStep :: "string \<Rightarrow> int \<Rightarrow> climb \<Rightarrow> failure + climb" where
  "hillClimbStep ciphertext iteration st =
     (case generateNeighborMapping (currentMapping st) (climb_rng st) of
        Inl e \<Rightarrow> Inl e
      | Inr (neighborMapping, supply) \<Rightarrow>
          (case scoreMapping neighborMapping ciphertext of
             Inl e \<Rightarrow> Inl e
           | Inr neighborScore \<Rightarrow>
               if neighborScore > currentScore st
               then Inr (st\<lparr>currentMapping := neighborMapping,
                            currentScore := neighborScore,
                            improvementCount := improvementCount st + 1,
                            climb_rng := supply,
                            climb_history := climb_history st @ [(iteration, neighborScore)]\<rparr>)
               else Inr (st\<lparr>climb_rng := supply\<rparr>)))"

text \<open>
  The loop, with \<open>n\<close> the number of iterations still to run. Besides the outcome it
  returns the value of \<open>currentScore\<close> at the end of each iteration it completed: this
  list is not computed by the code; it records the course of the run.
\<close>

fun hillClimbLoop :: "string \<Rightarrow> int \<Rightarrow> nat \<Rightarrow> climb \<Rightarrow> real list \<times> (failure + climb)" where
  "hillClimbLoop ciphertext iteration 0 st = ([], Inr st)"
| "hillClimbLoop ciphertext iteration (Suc n) st =
     (case hillClimbStep ciphertext iteration st of
        Inl e \<Rightarrow> ([], Inl e)
      | Inr st' \<Rightarrow>
          (case hillClimbLoop ciphertext (iteration + 1) n st' of
             (scores, outcome) \<Rightarrow> (currentScore st' # scores, outcome)))"

definition hillClimbOptimization ::
  "SubstitutionBreaker \<Rightarrow> (char \<times> char) list \<Rightarrow> string \<Rightarrow> int
     \<Rightarrow> real list \<times> (failure + ((char \<times> char) list \<times> SubstitutionBreaker))" where
  "hillClimbOptimization sb initialMapping ciphertext maxIter =
     (case scoreMapping initialMapping ciphertext of
        Inl e \<Rightarrow> ([], Inl e)
      | Inr score0 \<Rightarrow>
          (case hillClimbLoop ciphertext 0 (nat maxIter)
                  \<lparr>currentMapping = initialMapping, currentScore = score0,
                   improvementCount = 0, climb_rng = rng sb,
                   climb_history = optimizationHistory sb\<rparr> of
             (scores, Inl e) \<Rightarrow> (score0 # scores, Inl e)
           | (scores, Inr st) \<Rightarrow>
               (score0 # scores,
                Inr (currentMapping st,
                     sb\<lparr>rng := climb_rng st, optimizationHistory := climb_history st\<rparr>))))"

record anneal =
  sa_currentMapping :: "(char \<times> char) list"
  sa_currentScore :: real
  sa_bestMapping :: "(char \<times> char) list"
  sa_bestScore :: real
  temperature :: real
  sa_rng :: "nat list"
  sa_history :: "(int \<times> real) list"

definition annealStep :: "string \<Rightarrow> real \<Rightarrow> int \<Rightarrow> anneal \<Rightarrow> failure + anneal" where
  "annealStep ciphertext coolingRate iteration st =
     (case generateNeighborMapping (sa_currentMapping st) (sa_rng st) of
        Inl e \<Rightarrow> Inl e
      | Inr (neighborMapping, supply) \<Rightarrow>
          (case scoreMapping neighborMapping ciphertext of
             Inl e \<Rightarrow> Inl e
           | Inr neighborScore \<Rightarrow>
               let deltaScore = neighborScore - sa_currentScore st
               in case (if deltaScore > 0 then Inr (True, supply)
                        else (case supply of
                                [] \<Rightarrow> Inl NoMoreDraws
                              | r # supply' \<Rightarrow>
                                  Inr (real (r mod 2 ^ 32) / 2 ^ 32
                                         < exp (deltaScore / temperature st), supply'))) of
                    Inl e \<Rightarrow> Inl e
                  | Inr (accept, supply'') \<Rightarrow>
                      let st1 = (if accept
                                 then let st2 = st\<lparr>sa_currentMapping := neighborMapping,
                                                      sa_currentScore := neighborScore\<rparr>
                                      in if neighborScore > sa_bestScore st
                                         then st2\<lparr>sa_bestMapping := neighborMapping,
                                                  sa_bestScore := neighborScore,
                                                  sa_history := sa_history st
                                                                 @ [(iteration, neighborScore)]\<rparr>
                                         else st2
                                 else st)
                      in Inr (st1\<lparr>temperature := temperature st * coolingRate,
                                  sa_rng := supply''\<rparr>)))"

fun annealLoop :: "string \<Rightarrow> real \<Rightarrow> int \<Rightarrow> nat \<Rightarrow> anneal \<Rightarrow> failure + anneal" where
  "annealLoop ciphertext coolingRate iteration 0 st = Inr st"
| "annealLoop ciphertext coolingRate iteration (Suc n) st =
     (case annealStep ciphertext coolingRate iteration st of
        Inl e \<Rightarrow> Inl e
      | Inr st' \<Rightarrow> annealLoop ciphertext coolingRate (iteration + 1) n st')"

definition simulatedAnnealing ::
  "SubstitutionBreaker \<Rightarrow> (char \<times> char) list \<Rightarrow> string \<Rightarrow> int \<Rightarrow> real
     \<Rightarrow> failure + ((char \<times> char) list \<times> SubstitutionBreaker)" where
  "simulatedAnnealing sb initialMapping ciphertext maxIter initialTemperature =
     (case scoreMapping initialMapping ciphertext of
        Inl e \<Rightarrow> Inl e
      | Inr score0 \<Rightarrow>
          let coolingRate = (0.001 / initialTemperature) powr (1 / real_of_int maxIter)
          in case annealLoop ciphertext coolingRate 0 (nat maxIter)
                    \<lparr>sa_currentMapping = initialMapping, sa_currentScore = score0,
                     sa_bestMapping = initialMapping, sa_bestScore = score0,
                     temperature = initialTemperature, sa_rng = rng sb,
                     sa_history = optimizationHistory sb\<rparr> of
               Inl e \<Rightarrow> Inl e
             | Inr st \<Rightarrow>
                 Inr (sa_bestMapping st,
                      sb\<lparr>rng := sa_rng st, optimizationHistory := sa_history st\<rparr>))"

definition SubstitutionBreaker_breakCipher ::
  "SubstitutionBreaker \<Rightarrow> string \<Rightarrow> failure + (string \<times> SubstitutionBreaker)" where
  "SubstitutionBreaker_breakCipher sb ciphertext =
     (if \<not> validateInput ciphertext then Inr ([], sb)
      else
        let sb1 = sb\<lparr>optimizationHistory := []\<rparr>;
            initialMapping = generateMapping (targetLanguage sb1) ciphertext
        in case (if optimizationMethod sb1 = ''frequency'' then Inr (initialMapping, sb1)
                 else if optimizationMethod sb1 = ''hill_climbing''
                 then snd (hillClimbOptimization sb1 initialMapping ciphertext 1000)
                 else if optimizationMethod sb1 = ''simulated_annealing''
                 then simulatedAnnealing sb1 initialMapping ciphertext 2000 100
                 else (case improveMappingWithBigrams initialMapping ciphertext of
                         Inl e \<Rightarrow> Inl e
                       | Inr bigramMapping \<Rightarrow>
                           snd (hillClimbOptimization sb1 bigramMapping ciphertext
                                  (maxIterations sb1 sdiv 2)))) of
             Inl e \<Rightarrow> Inl e
           | Inr (bestMapping, sb2) \<Rightarrow>
               (case scoreMapping bestMapping ciphertext of
                  Inl e \<Rightarrow> Inl e
                | Inr finalScore \<Rightarrow>
                    Inr (applyMapping ciphertext bestMapping, updateConfidence finalScore 1 sb2)))"

section \<open>VigenereBreaker: key-length detection\<close>

text \<open>
  Key lengths, positions and counts are C++ \<open>int\<close>s that the code only ever uses with
  values from 0 upwards; they are modelled as \<^typ>\<open>nat\<close>. A range set to a negative
  bound with \<open>setKeyLengthRange\<close> is outside the model. A remainder by a key length of 0
  is a division by zero.
\<close>

record VigenereBreaker = CipherBreaker +
  caesarBreaker :: CaesarBreaker
  minKeyLength :: nat
  maxKeyLength :: nat
  minSubstringLength :: nat
  analysisResults :: "(string \<times> (nat \<times> real) list) list"

definition new_VigenereBreaker :: VigenereBreaker where
  "new_VigenereBreaker =
     \<lparr>confidence = 0, targetLanguage = ''english'', caesarBreaker = new_CaesarBreaker,
      minKeyLength = 2, maxKeyLength = 20, minSubstringLength = 3, analysisResults = []\<rparr>"

definition splitByKeyPosition :: "string \<Rightarrow> nat \<Rightarrow> failure + string list" where
  "splitByKeyPosition text keyLength =
     (if keyLength = 0 \<and> text \<noteq> [] then Inl DivisionByZero
      else Inr (foldl (\<lambda>substrings (i, c).
                         let position = i mod keyLength
                         in substrings[position := substrings ! position @ [c]])
                      (replicate keyLength []) (zip [0 ..< length text] text)))"

definition calculateICForKeyLength :: "string \<Rightarrow> nat \<Rightarrow> failure + real" where
  "calculateICForKeyLength text keyLength =
     (case splitByKeyPosition text keyLength of
        Inl e \<Rightarrow> Inl e
      | Inr substrings \<Rightarrow>
          let valid = filter (\<lambda>substring. length substring \<ge> 2) substrings;
              totalIC = sum_list (map calculateIndexOfCoincidence valid);
              validSubstrings = int (length valid)
          in Inr (if validSubstrings > 0 then totalIC / real_of_int validSubstrings else 0))"

fun icForLengths :: "string \<Rightarrow> nat list \<Rightarrow> failure + (nat \<times> real) list" where
  "icForLengths text [] = Inr []"
| "icForLengths text (keyLength # keyLengths) =
     (case calculateICForKeyLength text keyLength of
        Inl e \<Rightarrow> Inl e
      | Inr ic \<Rightarrow>
          (case icForLengths text keyLengths of
             Inl e \<Rightarrow> Inl e
           | Inr results \<Rightarrow> Inr ((keyLength, ic) # results)))"

definition indexOfCoincidenceMethod :: "VigenereBreaker \<Rightarrow> string \<Rightarrow> failure + (nat \<times> real) list" where
  "indexOfCoincidenceMethod vb ciphertext =
     (case icForLengths ciphertext [minKeyLength vb ..< Suc (maxKeyLength vb)] of
        Inl e \<Rightarrow> Inl e
      | Inr results \<Rightarrow> Inr (sort_by_score results))"

text \<open>
  \<open>findRepeatingSubstrings\<close>: every substring of length \<open>minLength\<close> to 10 is filed
  under its text with its start position. The outer bound \<open>length() - minLength\<close> is
  a \<open>size_t\<close>: on a text shorter than \<open>minLength\<close> it wraps around, the index runs
  past the end of the text, and \<open>substr\<close> throws once the \<open>int\<close> cast of the remaining
  length has come round to a positive value.
\<close>

definition filePattern :: "(string \<times> nat list) list \<Rightarrow> string \<times> nat \<Rightarrow> (string \<times> nat list) list" where
  "filePattern patterns entry =
     (case entry of (substring, i) \<Rightarrow>
        map_put substring (map_get [] patterns substring @ [i]) patterns)"

definition findRepeatingSubstrings :: "string \<Rightarrow> nat \<Rightarrow> failure + (string \<times> nat list) list" where
  "findRepeatingSubstrings text minLength =
     (if length text < minLength then Inl OutOfRange
      else
        let windows = concat (map (\<lambda>i. map (\<lambda>len. (substr text i len, i))
                                            [minLength ..< Suc (min (length text - i) 10)])
                                  [0 ..< Suc (length text - minLength)]);
            patterns = foldl filePattern [] windows
        in Inr (filter (\<lambda>pattern. length (snd pattern) \<ge> 2) patterns))"

text \<open>The distances \<open>kasiskiExamination\<close> collects from the repeating patterns.\<close>

definition collectDistances :: "nat \<Rightarrow> (string \<times> nat list) list \<Rightarrow> nat list" where
  "collectDistances minLen repeatingPatterns =
     concat (map (\<lambda>pattern.
                    if length (snd pattern) \<ge> 2
                    then filter (\<lambda>distance. distance \<ge> minLen)
                           (map (\<lambda>i. snd pattern ! i - snd pattern ! 0) [1 ..< length (snd pattern)])
                    else [])
                 repeatingPatterns)"

definition countFactors :: "nat \<Rightarrow> nat \<Rightarrow> (nat \<times> int) list \<Rightarrow> nat \<Rightarrow> (nat \<times> int) list" where
  "countFactors minLen maxLen factorCounts distance =
     foldl (\<lambda>counts factor.
              if distance mod factor = 0
              then map_put factor (map_get 0 counts factor + 1) counts
              else counts)
           factorCounts [minLen ..< Suc (min maxLen distance)]"

definition analyzeDistancePatterns :: "VigenereBreaker \<Rightarrow> nat list \<Rightarrow> failure + (nat \<times> real) list" where
  "analyzeDistancePatterns vb distances =
     (if minKeyLength vb = 0 \<and> distances \<noteq> [] then Inl DivisionByZero
      else
        let factorCounts = foldl (countFactors (minKeyLength vb) (maxKeyLength vb)) [] distances;
            maxCount = foldl (\<lambda>m pair. max m (snd pair)) 0 factorCounts
        in Inr (if maxCount > 0
                then map (\<lambda>(factor, n). (factor, real_of_int n / real_of_int maxCount)) factorCounts
                else []))"

definition kasiskiExamination :: "VigenereBreaker \<Rightarrow> string \<Rightarrow> failure + (nat \<times> real) list" where
  "kasiskiExamination vb ciphertext =
     (case findRepeatingSubstrings ciphertext (minSubstringLength vb) of
        Inl e \<Rightarrow> Inl e
      | Inr repeatingPatterns \<Rightarrow>
          let allDistances = collectDistances (minKeyLength vb) repeatingPatterns
          in if allDistances = [] then Inr []
             else
               case analyzeDistancePatterns vb allDistances of
                 Inl e \<Rightarrow> Inl e
               | Inr keyLengthScores \<Rightarrow>
                   Inr (sort_by_score
                          (filter (\<lambda>pair. fst pair \<ge> minKeyLength vb \<and> fst pair \<le> maxKeyLength vb)
                                  keyLengthScores)))"

definition addWeighted :: "real \<Rightarrow> (nat \<times> real) list \<Rightarrow> nat \<times> real \<Rightarrow> (nat \<times> real) list" where
  "addWeighted weight combinedScores result =
     map_put (fst result) (map_get 0 combinedScores (fst result) + snd result * weight)
             combinedScores"

definition combineKeyLengthResults :: "(nat \<times> real) list \<Rightarrow> (nat \<times> real) list \<Rightarrow> nat list" where
  "combineKeyLengthResults kasiskiResults icResults =
     (let combinedScores = foldl (addWeighted 0.4)
                             (foldl (addWeighted 0.6) [] kasiskiResults) icResults;
          sortedResults = sort_by_score combinedScores
      in map fst sortedResults)"

definition findKeyLength :: "VigenereBreaker \<Rightarrow> string \<Rightarrow> failure + (nat list \<times> VigenereBreaker)" where
  "findKeyLength vb ciphertext =
     (let normalizedText = normalizeText ciphertext
      in case kasiskiExamination vb normalizedText of
           Inl e \<Rightarrow> Inl e
         | Inr kasiskiResults \<Rightarrow>
             let vb1 = vb\<lparr>analysisResults :=
                            map_put ''kasiski'' kasiskiResults (analysisResults vb)\<rparr>
             in case indexOfCoincidenceMethod vb1 normalizedText of
                  Inl e \<Rightarrow> Inl e
                | Inr icResults \<Rightarrow>
                    let vb2 = vb1\<lparr>analysisResults :=
                                    map_put ''ic'' icResults (analysisResults vb1)\<rparr>
                    in Inr (combineKeyLengthResults kasiskiResults icResults, vb2))"

section \<open>VigenereBreaker: key recovery and breakCipher\<close>

definition shiftToChar :: "int \<Rightarrow> char" where
  "shiftToChar shift = char_of (65 + shift smod 26)"

definition findSubkey :: "nat \<Rightarrow> VigenereBreaker \<Rightarrow> string \<Rightarrow> failure + (char \<times> VigenereBreaker)" where
  "findSubkey hw vb subtextCipher =
     (if subtextCipher = [] then Inr (CHR ''A'', vb)
      else
        case findBestKey hw (caesarBreaker vb) subtextCipher of
          Inl e \<Rightarrow> Inl e
        | Inr (bestShift, cb) \<Rightarrow> Inr (shiftToChar bestShift, vb\<lparr>caesarBreaker := cb\<rparr>))"

text \<open>The loop of \<open>findKey\<close> over the key positions still to fill, with the key so far.\<close>

fun findKeyChars ::
  "nat \<Rightarrow> VigenereBreaker \<Rightarrow> string list \<Rightarrow> string \<Rightarrow> nat list
     \<Rightarrow> failure + (string \<times> VigenereBreaker)" where
  "findKeyChars hw vb substrings key [] = Inr (key, vb)"
| "findKeyChars hw vb substrings key (position # positions) =
     (if position < length substrings \<and> substrings ! position \<noteq> []
      then (case findSubkey hw vb (substrings ! position) of
              Inl e \<Rightarrow> Inl e
            | Inr (keyChar, vb') \<Rightarrow> findKeyChars hw vb' substrings (key @ [keyChar]) positions)
      else findKeyChars hw vb substrings (key @ [CHR ''A'']) positions)"

definition findKey :: "nat \<Rightarrow> VigenereBreaker \<Rightarrow> string \<Rightarrow> nat \<Rightarrow> failure + (string \<times> VigenereBreaker)" where
  "findKey hw vb ciphertext keyLength =
     (let normalizedText = normalizeText ciphertext
      in case splitByKeyPosition normalizedText keyLength of
           Inl e \<Rightarrow> Inl e
         | Inr substrings \<Rightarrow> findKeyChars hw vb substrings [] [0 ..< keyLength])"

text \<open>
  One candidate key length: the key, the text decrypted with it, and its score. With
  several candidates the code runs these on worker threads and collects the results in
  the order of the candidates; the model runs them in that order.
\<close>

definition tryKeyLength ::
  "nat \<Rightarrow> VigenereBreaker \<Rightarrow> string \<Rightarrow> nat
     \<Rightarrow> failure + ((string \<times> string \<times> real) \<times> VigenereBreaker)" where
  "tryKeyLength hw vb ciphertext keyLength =
     (case findKey hw vb ciphertext keyLength of
        Inl e \<Rightarrow> Inl e
      | Inr (key, vb') \<Rightarrow>
          let decrypted = VigenereBreaker_decrypt ciphertext key
          in Inr ((key, decrypted, VigenereBreaker_scorePlaintext decrypted), vb'))"

fun tryKeyLengths ::
  "nat \<Rightarrow> VigenereBreaker \<Rightarrow> string \<Rightarrow> nat list
     \<Rightarrow> failure + ((string \<times> string \<times> real) list \<times> VigenereBreaker)" where
  "tryKeyLengths hw vb ciphertext [] = Inr ([], vb)"
| "tryKeyLengths hw vb ciphertext (keyLength # keyLengths) =
     (case tryKeyLength hw vb ciphertext keyLength of
        Inl e \<Rightarrow> Inl e
      | Inr (r, vb') \<Rightarrow>
          (case tryKeyLengths hw vb' ciphertext keyLengths of
             Inl e \<Rightarrow> Inl e
           | Inr (rs, vb'') \<Rightarrow> Inr (r # rs, vb'')))"

definition keepBest :: "string \<times> string \<times> real \<Rightarrow> string \<times> string \<times> real \<Rightarrow> string \<times> string \<times> real" where
  "keepBest best r =
     (case best of (bestKey, bestResult, bestScore) \<Rightarrow>
        case r of (key, decrypted, score) \<Rightarrow>
          if score > bestScore then (key, decrypted, score) else (bestKey, bestResult, bestScore))"

definition VigenereBreaker_breakCipher ::
  "nat \<Rightarrow> VigenereBreaker \<Rightarrow> string \<Rightarrow> failure + (string \<times> VigenereBreaker)" where
  "VigenereBreaker_breakCipher hw vb ciphertext =
     (if \<not> validateInput ciphertext then Inr ([], vb)
      else
        case findKeyLength (vb\<lparr>analysisResults := []\<rparr>) ciphertext of
          Inl e \<Rightarrow> Inl e
        | Inr (candidateKeyLengths, vb1) \<Rightarrow>
            if candidateKeyLengths = [] then Inr ([], vb1)
            else
              case (if length candidateKeyLengths = 1
                    then (case tryKeyLength hw vb1 ciphertext (candidateKeyLengths ! 0) of
                            Inl e \<Rightarrow> Inl e
                          | Inr (r, vb2) \<Rightarrow> Inr (r, vb2))
                    else (case tryKeyLengths hw vb1 ciphertext candidateKeyLengths of
                            Inl e \<Rightarrow> Inl e
                          | Inr (rs, vb2) \<Rightarrow> Inr (foldl keepBest ([], [], 0) rs, vb2))) of
                Inl e \<Rightarrow> Inl e
              | Inr ((bestKey, bestResult, bestScore), vb2) \<Rightarrow>
                  Inr (bestResult, updateConfidence bestScore 1 vb2))"

text \<open>
  The state of a fresh \<open>CaesarBreaker\<close> after \<open>breakCipher("HI")\<close>: the text is too
  short to be scored, all 26 keys score 0, and the confidence is set to 50.
\<close>

definition after_HI :: CaesarBreaker where
  "after_HI =
     \<lparr>confidence = 50, targetLanguage = ''english'', minTextLength = 20,
      lastAnalysis =
        [(0, 0), (1, 0), (2, 0), (3, 0), (4, 0), (5, 0), (6, 0), (7, 0), (8, 0), (9, 0),
         (10, 0), (11, 0), (12, 0), (13, 0), (14, 0), (15, 0), (16, 0), (17, 0), (18, 0),
         (19, 0), (20, 0), (21, 0), (22, 0), (23, 0), (24, 0), (25, 0)]\<rparr>"

text \<open>How often the letter \<open>c\<close> occurs in a text, counting both cases.\<close>

definition letterCount :: "char \<Rightarrow> string \<Rightarrow> nat" where
  "letterCount c text = length (filter (\<lambda>x. isalpha x \<and> toupper x = c) text)"

text \<open>
  The invariant of the specification for a \<open>SubstitutionMapping\<close>: the cipher letters
  are exactly A to Z, and every plain letter from A to Z is used exactly once.
\<close>

definition is_permutation_mapping :: "(char \<times> char) list \<Rightarrow> bool" where
  "is_permutation_mapping mapping \<longleftrightarrow>
     map fst mapping = letters_A_Z
     \<and> distinct (map snd mapping)
     \<and> set (map snd mapping) = set letters_A_Z"

section \<open>Key-length scores of the specification\<close>

text \<open>
  The scores of the specification, from its words. The columns of a text for a key
  length \<open>L\<close>: character \<open>i\<close> goes to column \<open>i mod L\<close>. The Kasiski score of \<open>L\<close>: the
  number of distances that \<open>L\<close> divides, over the largest such number among the
  candidate lengths. The distances are those that \<open>kasiskiExamination\<close> collects:
  from the first occurrence of each repeated substring to each later one.
\<close>

definition columns :: "string \<Rightarrow> nat \<Rightarrow> string list" where
  "columns text L = map (\<lambda>p. map (\<lambda>i. text ! i) (filter (\<lambda>i. i mod L = p) [0 ..< length text]))
                        [0 ..< L]"




text \<open>
  The Index of Coincidence of the specification: the sum of \<open>n (n - 1)\<close> over the
  counts \<open>n\<close> of the 26 letters, divided by \<open>N (N - 1)\<close> for the number \<open>N\<close> of letters
  of the text, and 0 if \<open>N\<close> is at most 1.
\<close>

definition indexOfCoincidence :: "string \<Rightarrow> real" where
  "indexOfCoincidence text =
     (let N = length (filter isalpha text)
      in if N \<le> 1 then 0
         else real (sum_list (map (\<lambda>c. letterCount c text * (letterCount c text - 1)) letters_A_Z))
              / real (N * (N - 1)))"

text \<open>The average Index of Coincidence of all \<open>L\<close> columns.\<close>

definition averageIC :: "string \<Rightarrow> nat \<Rightarrow> real" where
  "averageIC text L = sum_list (map indexOfCoincidence (columns text L)) / real L"

text \<open>The average over the columns that have at least two characters, 0 without any.\<close>

definition averageIC_of_long_columns :: "string \<Rightarrow> nat \<Rightarrow> real" where
  "averageIC_of_long_columns text L =
     (let long = filter (\<lambda>column. 2 \<le> length column) (columns text L)
      in if long = [] then 0
         else sum_list (map indexOfCoincidence long) / real (length long))"



section \<open>Properties of the character functions\<close>

lemma char_of_int_eq: "(char_of (n::int) = c) = (n mod 256 = of_char c)"
  by (simp add: char_of_eq_iff take_bit_eq_mod)

lemma of_char_int_nat: "(of_char c :: int) = int (of_char c :: nat)"
  by (simp add: of_nat_of_char)

lemma isupper_int: "isupper c \<longleftrightarrow> 65 \<le> (of_char c :: int) \<and> (of_char c :: int) \<le> 90"
  by (simp add: isupper_def of_char_int_nat)

lemma islower_int: "islower c \<longleftrightarrow> 97 \<le> (of_char c :: int) \<and> (of_char c :: int) \<le> 122"
  by (simp add: islower_def of_char_int_nat)

lemma not_upper_and_lower: "isupper c \<Longrightarrow> \<not> islower c"
  by (simp add: isupper_def islower_def)

lemma smod_nonneg: "0 \<le> a \<Longrightarrow> a smod 26 = a mod (26::int)"
  by (simp add: signed_modulo_int_def sgn_if)

lemma caesarShiftChar_rotate:
  assumes "0 \<le> s"
  shows "caesarShiftChar c s = rotate_within_case s c"
proof (cases "isupper c")
  case True
  then have "0 \<le> of_char c - 65 + s" using assms by (simp add: isupper_int)
  then show ?thesis using True
    by (simp add: caesarShiftChar_def rotate_within_case_def isalpha_def smod_nonneg add.commute)
next
  case False
  show ?thesis
  proof (cases "islower c")
    case True
    then have "0 \<le> of_char c - 97 + s" using assms by (simp add: islower_int)
    then show ?thesis using True \<open>\<not> isupper c\<close>
      by (simp add: caesarShiftChar_def rotate_within_case_def isalpha_def smod_nonneg add.commute)
  next
    case False
    then show ?thesis using \<open>\<not> isupper c\<close>
      by (simp add: caesarShiftChar_def rotate_within_case_def isalpha_def)
  qed
qed

lemma vigenereShift_rotate:
  "0 \<le> s \<Longrightarrow> vigenereShift c s = rotate_within_case s c"
  using caesarShiftChar_rotate [of s c] by (simp add: vigenereShift_def caesarShiftChar_def)

lemma rotate_upper: "isupper c \<Longrightarrow> isupper (rotate_within_case k c)"
  by (simp add: rotate_within_case_def) (simp add: isupper_int)

lemma rotate_lower: "islower c \<Longrightarrow> islower (rotate_within_case k c)"
  by (simp add: rotate_within_case_def not_upper_and_lower) (auto simp add: islower_int isupper_int)

lemma rotate_other: "\<not> isalpha c \<Longrightarrow> rotate_within_case k c = c"
  by (simp add: rotate_within_case_def isalpha_def)

lemma rotate_alpha: "isalpha (rotate_within_case k c) = isalpha c"
  by (metis isalpha_def rotate_lower rotate_other rotate_upper)

lemma rotate_rotate:
  assumes "(j + k) mod 26 = 0"
  shows "rotate_within_case k (rotate_within_case j c) = c"
proof (cases "isupper c")
  case True
  let ?x = "of_char c - 65 :: int"
  have x: "0 \<le> ?x" "?x < 26" using True by (simp_all add: isupper_int)
  have "((?x + j) mod 26 + k) mod 26 = (?x + (j + k)) mod 26"
    by (simp add: mod_add_left_eq add.assoc)
  also have "\<dots> = ?x" using assms x
    by (metis add.right_neutral mod_add_right_eq mod_pos_pos_trivial)
  finally have "((?x + j) mod 26 + k) mod 26 = ?x" .
  moreover have "(of_char (rotate_within_case j c) :: int) = 65 + (?x + j) mod 26"
    using True by (simp add: rotate_within_case_def)
  ultimately have "rotate_within_case k (rotate_within_case j c) = char_of (65 + ?x)"
    using rotate_upper [OF True, of j] by (simp add: rotate_within_case_def [of k])
  then show ?thesis by simp
next
  case False
  show ?thesis
  proof (cases "islower c")
    case True
    let ?x = "of_char c - 97 :: int"
    have x: "0 \<le> ?x" "?x < 26" using True by (simp_all add: islower_int)
    have "((?x + j) mod 26 + k) mod 26 = (?x + (j + k)) mod 26"
      by (simp add: mod_add_left_eq add.assoc)
    also have "\<dots> = ?x" using assms x
      by (metis add.right_neutral mod_add_right_eq mod_pos_pos_trivial)
    finally have "((?x + j) mod 26 + k) mod 26 = ?x" .
    moreover have "(of_char (rotate_within_case j c) :: int) = 97 + (?x + j) mod 26"
      using True \<open>\<not> isupper c\<close> by (simp add: rotate_within_case_def)
    moreover have "\<not> isupper (rotate_within_case j c)"
      using rotate_lower [OF True, of j] not_upper_and_lower by blast
    ultimately have "rotate_within_case k (rotate_within_case j c) = char_of (97 + ?x)"
      using rotate_lower [OF True, of j] by (simp add: rotate_within_case_def [of k])
    then show ?thesis by simp
  next
    case False
    then show ?thesis using \<open>\<not> isupper c\<close> by (simp add: rotate_within_case_def)
  qed
qed

lemma toupper_code: "islower c \<Longrightarrow> (of_char (toupper c) :: nat) = of_char c - 32"
proof -
  assume "islower c"
  then have "(of_char c :: nat) - 32 < 256" unfolding islower_def by linarith
  then show ?thesis using \<open>islower c\<close> by (simp add: toupper_def)
qed

lemma charToShift_range: "0 \<le> charToShift c \<and> charToShift c \<le> 25"
proof (cases "isupper c")
  case True
  then show ?thesis
    by (simp add: charToShift_def isalpha_def toupper_def not_upper_and_lower) (simp add: isupper_int)
next
  case False
  show ?thesis
  proof (cases "islower c")
    case True
    then have "(of_char (toupper c) :: int) = of_char c - 32"
      using toupper_code [OF True] by (simp add: of_char_int_nat islower_def)
    then show ?thesis using True by (simp add: charToShift_def isalpha_def islower_int)
  next
    case False
    then show ?thesis using \<open>\<not> isupper c\<close> by (simp add: charToShift_def isalpha_def)
  qed
qed

lemma decrypt_from_encrypt_from:
  "decrypt_from key i (encrypt_from key i text) = text"
proof (induction "text" arbitrary: i)
  case Nil
  then show ?case by simp
next
  case (Cons c cs)
  let ?s = "charToShift (toupper (key ! (i mod length key)))"
  have s: "0 \<le> ?s" "0 \<le> 26 - ?s" using charToShift_range [of "toupper (key ! (i mod length key))"] by simp_all
  have "rotate_within_case (26 - ?s) (rotate_within_case ?s c) = c"
    by (rule rotate_rotate) simp
  then show ?case using Cons.IH s
    by (simp add: vigenereShift_rotate rotate_alpha)
qed

lemma encrypt_from_length: "length (encrypt_from key i text) = length text"
  by (induction "text" arbitrary: i) simp_all

lemma decrypt_from_length: "length (decrypt_from key i text) = length text"
  by (induction "text" arbitrary: i) simp_all

lemma encrypt_from_nth:
  "n < length text \<Longrightarrow> encrypt_from key i text ! n =
     (if isalpha (text ! n)
      then vigenereShift (text ! n) (charToShift (toupper (key ! ((i + n) mod length key))))
      else text ! n)"
proof (induction "text" arbitrary: i n)
  case Nil
  then show ?case by simp
next
  case (Cons c cs)
  then show ?case by (cases n) simp_all
qed

lemma decrypt_from_nth:
  "n < length text \<Longrightarrow> decrypt_from key i text ! n =
     (if isalpha (text ! n)
      then vigenereShift (text ! n) (26 - charToShift (toupper (key ! ((i + n) mod length key))))
      else text ! n)"
proof (induction "text" arbitrary: i n)
  case Nil
  then show ?case by simp
next
  case (Cons c cs)
  then show ?case by (cases n) simp_all
qed


section \<open>Caesar decryption\<close>





section \<open>Round trips\<close>

text \<open>
  Claim C3, as the code has it. For every text, every Caesar key \<open>s\<close> in \<open>[0,25]\<close> and
  every keyword, decrypting what was encrypted under the same key gives back the text
  itself, character for character (case, spaces and punctuation included), for the
  Caesar pair and for the Vigenere pair; hence the normalized forms of both sides
  agree, which is what the unit tests compare.
\<close>

theorem encrypt_decrypt_roundtrip:
  assumes "0 \<le> s" and "s \<le> 25"
  shows "CaesarBreaker_decrypt (CaesarBreaker_encrypt text s) s = text
       \<and> VigenereBreaker_decrypt (VigenereBreaker_encrypt text key) key = text
       \<and> normalizeText (CaesarBreaker_decrypt (CaesarBreaker_encrypt text s) s) = normalizeText text
       \<and> normalizeText (VigenereBreaker_decrypt (VigenereBreaker_encrypt text key) key)
           = normalizeText text"
proof -
  have "rotate_within_case s (rotate_within_case (26 - s) c) = c" for c
    by (rule rotate_rotate) simp
  then have "map (rotate_within_case s \<circ> rotate_within_case (26 - s)) text = text"
    by (simp add: map_idI)
  then have caesar: "CaesarBreaker_decrypt (CaesarBreaker_encrypt text s) s = text"
    using assms
    by (simp add: CaesarBreaker_decrypt_def CaesarBreaker_encrypt_def caesarShift_def
        caesarShiftChar_rotate)
  have vig: "VigenereBreaker_decrypt (VigenereBreaker_encrypt text key) key = text"
    by (simp add: VigenereBreaker_decrypt_def VigenereBreaker_encrypt_def
        decrypt_from_encrypt_from)
  show ?thesis by (simp add: caesar vig)
qed

theorem encrypt_decrypt_roundtrip_witness:
  "(0::int) \<le> 3 \<and> (3::int) \<le> 25
   \<and> CaesarBreaker_decrypt (CaesarBreaker_encrypt ''Hello, World!'' 3) 3 = ''Hello, World!''
   \<and> VigenereBreaker_decrypt (VigenereBreaker_encrypt ''Hello, World!'' ''KEY'') ''KEY''
       = ''Hello, World!''"
  using encrypt_decrypt_roundtrip [of 3 "''Hello, World!''" "''KEY''"] by simp

text \<open>
  Claim C3 as the specification words it (the round trip equals the normalized text)
  fails as soon as the text has a lower-case letter or a character that is not a letter:
  the round trip keeps them, normalization does not.
\<close>

theorem roundtrip_is_not_normalized_counterexample:
  "CaesarBreaker_decrypt (CaesarBreaker_encrypt ''Hello, World!'' 3) 3
     \<noteq> normalizeText ''Hello, World!''
   \<and> VigenereBreaker_decrypt (VigenereBreaker_encrypt ''THE QUICK BROWN FOX'' ''KEY'') ''KEY''
     \<noteq> normalizeText ''THE QUICK BROWN FOX''"
  by code_simp

section \<open>Vigenere key positions\<close>

text \<open>
  Claim C10. With a non-empty key, \<open>VigenereBreaker::encrypt\<close> and \<open>decrypt\<close> keep the
  length of the input, and the character at absolute position \<open>i\<close> of the input is
  shifted with key character \<open>i mod length key\<close> (by its shift when encrypting, by 26
  minus its shift when decrypting) if it is a letter and copied unchanged otherwise.
  Positions are counted over all characters, so a character that is not a letter uses
  up a key position: under key \<open>"AB"\<close> the second \<open>B\<close> of \<open>"B B"\<close> sits at position 2
  and meets key character \<open>A\<close> again, whereas in \<open>"BB"\<close> it meets \<open>B\<close>.
\<close>

theorem vigenere_key_by_absolute_position:
  assumes "key \<noteq> []" and "i < length text"
  shows "length (VigenereBreaker_encrypt text key) = length text
       \<and> length (VigenereBreaker_decrypt text key) = length text
       \<and> VigenereBreaker_encrypt text key ! i =
           (if isalpha (text ! i)
            then vigenereShift (text ! i) (charToShift (toupper (key ! (i mod length key))))
            else text ! i)
       \<and> VigenereBreaker_decrypt text key ! i =
           (if isalpha (text ! i)
            then vigenereShift (text ! i) (26 - charToShift (toupper (key ! (i mod length key))))
            else text ! i)
       \<and> VigenereBreaker_encrypt ''B B'' ''AB'' = ''B B''
       \<and> VigenereBreaker_encrypt ''BB'' ''AB'' = ''BC''"
proof -
  have "VigenereBreaker_encrypt ''B B'' ''AB'' = ''B B''" by code_simp
  moreover have "VigenereBreaker_encrypt ''BB'' ''AB'' = ''BC''" by code_simp
  ultimately show ?thesis
    using assms
    by (simp add: VigenereBreaker_encrypt_def VigenereBreaker_decrypt_def
        encrypt_from_length decrypt_from_length encrypt_from_nth decrypt_from_nth)
qed

theorem vigenere_key_by_absolute_position_witness:
  "''KEY'' \<noteq> [] \<and> (4::nat) < length ''THE QUICK''
   \<and> VigenereBreaker_encrypt ''THE QUICK'' ''KEY'' ! 4 =
       vigenereShift (CHR ''Q'') (charToShift (toupper (CHR ''E'')))"
proof -
  have "isalpha (''THE QUICK'' ! 4)" by code_simp
  then show ?thesis
    using vigenere_key_by_absolute_position [of "''KEY''" 4 "''THE QUICK''"] by simp
qed

section \<open>Invalid input\<close>

lemma validateInput_iff:
  "validateInput ciphertext \<longleftrightarrow>
     ciphertext \<noteq> [] \<and> real (length ciphertext) * 0.5 \<le> real (length (filter isalpha ciphertext))"
  by (simp add: validateInput_def isValidInput_def)

text \<open>
  Claim C5, as the code has it. When the ciphertext is empty or fewer than half of its
  characters are letters, \<open>breakCipher\<close> of each of the three solvers returns the empty
  string at once, without a failure, and leaves the solver as it was: the confidence it
  reports afterwards is the one it had before the call, which is 0 for a solver that has
  just been constructed.
\<close>

theorem invalid_input_empty_result_state_kept:
  assumes "ciphertext = []
         \<or> real (length (filter isalpha ciphertext)) < 0.5 * real (length ciphertext)"
  shows "CaesarBreaker_breakCipher hw cb ciphertext = Inr ([], cb)
       \<and> SubstitutionBreaker_breakCipher sb ciphertext = Inr ([], sb)
       \<and> VigenereBreaker_breakCipher hw vb ciphertext = Inr ([], vb)
       \<and> confidence new_CaesarBreaker = 0
       \<and> confidence (new_SubstitutionBreaker seed) = 0
       \<and> confidence new_VigenereBreaker = 0"
proof -
  have "\<not> validateInput ciphertext"
    using assms by (auto simp: validateInput_iff)
  then show ?thesis
    by (simp add: CaesarBreaker_breakCipher_def SubstitutionBreaker_breakCipher_def
        VigenereBreaker_breakCipher_def new_CaesarBreaker_def new_SubstitutionBreaker_def
        new_VigenereBreaker_def)
qed

theorem invalid_input_empty_result_state_kept_witness:
  "real (length (filter isalpha ''123456789'')) < 0.5 * real (length ''123456789'')
   \<and> CaesarBreaker_breakCipher 8 new_CaesarBreaker ''123456789'' = Inr ([], new_CaesarBreaker)
   \<and> SubstitutionBreaker_breakCipher (new_SubstitutionBreaker []) ''123456789''
       = Inr ([], new_SubstitutionBreaker [])
   \<and> VigenereBreaker_breakCipher 8 new_VigenereBreaker ''123456789'' = Inr ([], new_VigenereBreaker)"
proof -
  have h: "real (length (filter isalpha ''123456789'')) < 0.5 * real (length ''123456789'')"
    by code_simp
  show ?thesis
    using h invalid_input_empty_result_state_kept
      [of "''123456789''" 8 new_CaesarBreaker "new_SubstitutionBreaker []" new_VigenereBreaker]
    by simp
qed

text \<open>
  Claim C5 as the specification words it (the solver reports zero confidence) fails for
  a solver that has been used before. On \<open>"HI"\<close>, a text below the minimum length, all
  26 keys score 0, so \<open>breakCipher("HI")\<close> leaves a fresh \<open>CaesarBreaker\<close> with the
  confidence \<open>(0 - 0) * 10 + 50 = 50\<close>; which of the equally scored keys it decrypts with
  depends on the order in which the sort leaves them, the state it leaves does not. The
  solver still holds confidence 50 after \<open>breakCipher("")\<close> has returned the empty string.
\<close>

theorem invalid_input_keeps_old_confidence_counterexample:
  "map_sum id snd (CaesarBreaker_breakCipher 8 new_CaesarBreaker ''HI'') = Inr after_HI
   \<and> CaesarBreaker_breakCipher 8 after_HI [] = Inr ([], after_HI)
   \<and> confidence after_HI = 50"
  by code_simp

section \<open>Caesar key ranking and confidence\<close>

lemma toupper_isupper: "isalpha c \<Longrightarrow> isupper (toupper c)"
proof (cases "islower c")
  case True
  then have "(of_char (toupper c) :: nat) = of_char c - 32" by (rule toupper_code)
  then show ?thesis using True unfolding isupper_def islower_def by linarith
next
  case False
  assume "isalpha c"
  then show ?thesis using False by (simp add: isalpha_def toupper_def)
qed

lemma normalizeText_upper: "c \<in> set (normalizeText t) \<Longrightarrow> isupper c"
  by (auto simp: normalizeText_def toUpperCase_def removeNonAlpha_def toupper_isupper)

lemma normalizeText_alpha: "c \<in> set (normalizeText t) \<Longrightarrow> isalpha c"
  by (simp add: isalpha_def normalizeText_upper)

lemma normalizeText_all_alpha:
  "\<forall>c \<in> set t. isalpha c \<Longrightarrow> length (normalizeText t) = length t"
  by (simp add: normalizeText_def toUpperCase_def removeNonAlpha_def)

lemma caesarShift_alpha:
  assumes "0 \<le> k" and "\<forall>c \<in> set t. isalpha c"
  shows "\<forall>c \<in> set (caesarShift t k). isalpha c"
  using assms by (auto simp: caesarShift_def caesarShiftChar_rotate rotate_alpha)

lemma caesarShift_length: "length (caesarShift t k) = length t"
  by (simp add: caesarShift_def)

lemma findCommonBigrams_ok:
  "normalizeText t \<noteq> [] \<Longrightarrow> \<exists>bs. findCommonBigrams t n = Inr bs"
  by (simp add: findCommonBigrams_def Let_def)

lemma checkCommonPatterns_ok:
  assumes "normalizeText t \<noteq> []"
  shows "\<exists>v. checkCommonPatterns t = Inr v"
proof -
  obtain bs where "findCommonBigrams t 10 = Inr bs"
    using findCommonBigrams_ok [OF assms] by blast
  then show ?thesis by (simp add: checkCommonPatterns_def Let_def)
qed

lemma scoreText_ok:
  assumes "\<forall>c \<in> set t. isalpha c" and "1 \<le> minTextLength st \<or> t \<noteq> []"
  shows "\<exists>v. scoreText st t = Inr v"
proof (cases "int (length t) < minTextLength st")
  case True
  then show ?thesis by (simp add: scoreText_def)
next
  case False
  then have "t \<noteq> []" using assms(2) by auto
  then have "normalizeText t \<noteq> []"
    using normalizeText_all_alpha [OF assms(1)] by auto
  then obtain v where "checkCommonPatterns t = Inr v"
    using checkCommonPatterns_ok by blast
  then show ?thesis using False by (simp add: scoreText_def Let_def)
qed

lemma scoreKeys_ok:
  assumes "\<forall>c \<in> set t. isalpha c" and "1 \<le> minTextLength st \<or> t \<noteq> []"
    and "\<forall>k \<in> set keys. 0 \<le> k"
  shows "\<exists>results. scoreKeys st t keys = Inr results \<and> map fst results = keys"
  using assms(3)
proof (induction keys)
  case Nil
  then show ?case by simp
next
  case (Cons k keys)
  have k: "0 \<le> k" using Cons.prems by simp
  have "\<forall>c \<in> set (caesarShift t k). isalpha c"
    using caesarShift_alpha [OF k assms(1)] .
  moreover have "1 \<le> minTextLength st \<or> caesarShift t k \<noteq> []"
    using assms(2) by (auto simp: caesarShift_def)
  ultimately obtain v where v: "scoreText st (caesarShift t k) = Inr v"
    using scoreText_ok by blast
  obtain rest where "scoreKeys st t keys = Inr rest" "map fst rest = keys"
    using Cons by auto
  then show ?case using v by simp
qed

lemma sort_by_score_mset: "mset (sort_by_score xs) = mset xs"
  by (simp add: sort_by_score_def)

lemma sort_by_score_length: "length (sort_by_score xs) = length xs"
  by (simp add: sort_by_score_def)

lemma sort_by_score_descending:
  assumes "i \<le> j" and "j < length xs"
  shows "snd (sort_by_score xs ! j) \<le> snd (sort_by_score xs ! i)"
proof -
  let ?ys = "sort_by_score xs"
  have "sorted (map (\<lambda>p. - snd p) ?ys)" by (simp add: sort_by_score_def)
  moreover have "j < length (map (\<lambda>p. - snd p) ?ys)" using assms(2) by (simp add: sort_by_score_length)
  ultimately have "map (\<lambda>p. - snd p) ?ys ! i \<le> map (\<lambda>p. - snd p) ?ys ! j"
    using assms(1) sorted_nth_mono by blast
  then show ?thesis using assms by (simp add: sort_by_score_length)
qed

lemma rankConfidence_clamp:
  assumes "2 \<le> length ks" and "snd (ks ! 1) \<le> snd (ks ! 0)"
  shows "confidence (rankConfidence ks st)
         = clamp ((snd (ks ! 0) - snd (ks ! 1)) * 10 + 50) 0 100"
  using assms by (simp add: rankConfidence_def clamp_def Let_def min_def)

text \<open>
  However a sort orders the entries with equal scores, the scores of its result are
  the same list, and so is the confidence that \<open>rankConfidence\<close> derives from it.
\<close>

lemma descending_scores_unique:
  assumes "mset ys = mset xs" and "sorted_wrt (\<lambda>a b. snd b \<le> snd a) ys"
  shows "map snd ys = map snd (sort_by_score xs)"
proof -
  let ?f = "\<lambda>p :: 'a \<times> real. - snd p"
  have "sorted (map ?f ys)"
    using assms(2) by (simp add: sorted_wrt_map)
  moreover have "mset (map ?f ys) = mset (map ?f xs)" using assms(1) by simp
  ultimately have a: "sort (map ?f xs) = map ?f ys" by (rule properties_for_sort [rotated])
  have "sorted (map ?f (sort_key ?f xs))" by (rule sorted_sort_key)
  moreover have "mset (map ?f (sort_key ?f xs)) = mset (map ?f xs)" by simp
  ultimately have b: "sort (map ?f xs) = map ?f (sort_key ?f xs)"
    by (rule properties_for_sort [rotated])
  have "map ?f ys = map ?f (sort_by_score xs)" using a b by (simp add: sort_by_score_def)
  then have "map uminus (map ?f ys) = map uminus (map ?f (sort_by_score xs))" by simp
  then show ?thesis by (simp add: comp_def)
qed

lemma rankConfidence_any_order:
  assumes "mset ys = mset xs" and "sorted_wrt (\<lambda>a b. snd b \<le> snd a) ys"
  shows "rankConfidence ys st = rankConfidence (sort_by_score xs) st"
proof -
  have m: "map snd ys = map snd (sort_by_score xs)"
    using assms by (rule descending_scores_unique)
  then have l: "length ys = length (sort_by_score xs)" by (rule map_eq_imp_length_eq)
  have n: "snd (ys ! i) = snd (sort_by_score xs ! i)" if "i < length ys" for i
    using that m l by (metis nth_map)
  show ?thesis
  proof (cases "2 \<le> length ys")
    case True
    then have "0 < length ys" and "1 < length ys" by linarith+
    then have "snd (ys ! 0) = snd (sort_by_score xs ! 0)"
      and "snd (ys ! 1) = snd (sort_by_score xs ! 1)"
      using n by blast+
    then show ?thesis using True l by (simp add: rankConfidence_def Let_def)
  next
    case False
    then show ?thesis using l by (simp add: rankConfidence_def)
  qed
qed

text \<open>
  Claim C7. \<open>findPossibleKeys\<close> (on a machine that reports at least one hardware
  thread, and with a positive minimum text length or a text that has a letter) scores
  the 26 keys 0 to 25, returns these 26 candidates ranked by descending score, and sets
  the confidence to \<open>clamp((best - secondBest) * 10 + 50, 0, 100)\<close>, where \<open>best\<close> and
  \<open>secondBest\<close> are the scores of the first two candidates of the ranking, that is the
  two highest scores. The code only caps the value at 100; since the ranking makes the
  difference non-negative, the value is at least 50 and the lower bound of the clamp is
  never needed. On a ranking with fewer than 2 candidates the confidence is left as it
  was.
\<close>

theorem caesar_confidence_from_best_two:
  assumes "0 < hw" and "1 \<le> minTextLength cb \<or> normalizeText ciphertext \<noteq> []"
  shows "(\<exists>results keyScores cb'.
            scoreKeys cb (normalizeText ciphertext) [0 .. 25] = Inr results
          \<and> map fst results = [0 .. 25]
          \<and> findPossibleKeys hw cb ciphertext = Inr (keyScores, cb')
          \<and> mset keyScores = mset results
          \<and> (\<forall>i j. i \<le> j \<and> j < 26 \<longrightarrow> snd (keyScores ! j) \<le> snd (keyScores ! i))
          \<and> confidence cb'
              = clamp ((snd (keyScores ! 0) - snd (keyScores ! 1)) * 10 + 50) 0 100)
       \<and> (length ks < 2 \<longrightarrow> confidence (rankConfidence ks cb) = confidence cb)"
proof -
  let ?t = "normalizeText ciphertext"
  have "\<forall>c \<in> set ?t. isalpha c" by (simp add: normalizeText_alpha)
  moreover have "\<forall>k \<in> set [0 .. 25::int]. 0 \<le> k" by simp
  ultimately obtain results where r: "scoreKeys cb ?t [0 .. 25] = Inr results"
    "map fst results = [0 .. 25]"
    using scoreKeys_ok [of ?t cb "[0 .. 25]"] assms(2) by blast
  have "length (map fst results) = length [0 .. 25::int]" using r(2) by simp
  then have len: "length results = 26" by simp
  let ?st1 = "cb\<lparr>lastAnalysis := foldl (\<lambda>m (k, v). map_put k v m) (lastAnalysis cb) results\<rparr>"
  let ?ks = "sort_by_score (sort_key fst results)"
  have f: "findPossibleKeys hw cb ciphertext = Inr (?ks, rankConfidence ?ks ?st1)"
    using assms(1) r(1) by (simp add: findPossibleKeys_def Let_def)
  have l: "length ?ks = 26" by (simp add: sort_by_score_length len)
  have m: "mset ?ks = mset results" by (simp add: sort_by_score_mset)
  have d: "snd (?ks ! j) \<le> snd (?ks ! i)" if "i \<le> j" "j < 26" for i j
    using sort_by_score_descending [of i j "sort_key fst results"] that len by simp
  have "snd (?ks ! 1) \<le> snd (?ks ! 0)" using d [of 0 1] by simp
  then have c: "confidence (rankConfidence ?ks ?st1)
      = clamp ((snd (?ks ! 0) - snd (?ks ! 1)) * 10 + 50) 0 100"
    using rankConfidence_clamp [of ?ks ?st1] l by simp
  have lo: "length ks < 2 \<longrightarrow> confidence (rankConfidence ks cb) = confidence cb"
    by (simp add: rankConfidence_def)
  have "scoreKeys cb ?t [0 .. 25] = Inr results
          \<and> map fst results = [0 .. 25]
          \<and> findPossibleKeys hw cb ciphertext = Inr (?ks, rankConfidence ?ks ?st1)
          \<and> mset ?ks = mset results
          \<and> (\<forall>i j. i \<le> j \<and> j < 26 \<longrightarrow> snd (?ks ! j) \<le> snd (?ks ! i))
          \<and> confidence (rankConfidence ?ks ?st1)
              = clamp ((snd (?ks ! 0) - snd (?ks ! 1)) * 10 + 50) 0 100"
    using r f m d c by simp
  then have "\<exists>results keyScores cb'.
            scoreKeys cb ?t [0 .. 25] = Inr results
          \<and> map fst results = [0 .. 25]
          \<and> findPossibleKeys hw cb ciphertext = Inr (keyScores, cb')
          \<and> mset keyScores = mset results
          \<and> (\<forall>i j. i \<le> j \<and> j < 26 \<longrightarrow> snd (keyScores ! j) \<le> snd (keyScores ! i))
          \<and> confidence cb'
              = clamp ((snd (keyScores ! 0) - snd (keyScores ! 1)) * 10 + 50) 0 100"
    by (intro exI)
  then show ?thesis using lo by (rule conjI)
qed

theorem caesar_confidence_from_best_two_witness:
  "(0::nat) < 8 \<and> 1 \<le> minTextLength new_CaesarBreaker
   \<and> (\<exists>results keyScores cb'.
            scoreKeys new_CaesarBreaker (normalizeText ''HI'') [0 .. 25] = Inr results
          \<and> map fst results = [0 .. 25]
          \<and> findPossibleKeys 8 new_CaesarBreaker ''HI'' = Inr (keyScores, cb')
          \<and> mset keyScores = mset results
          \<and> confidence cb'
              = clamp ((snd (keyScores ! 0) - snd (keyScores ! 1)) * 10 + 50) 0 100)
   \<and> confidence (rankConfidence [(3, 1)] new_CaesarBreaker) = confidence new_CaesarBreaker"
proof -
  have h1: "(0::nat) < 8" by simp
  have h2: "1 \<le> minTextLength new_CaesarBreaker \<or> normalizeText ''HI'' \<noteq> []"
    by (simp add: new_CaesarBreaker_def)
  have h3: "1 \<le> minTextLength new_CaesarBreaker" by (simp add: new_CaesarBreaker_def)
  note t = caesar_confidence_from_best_two [OF h1 h2, of "[(3, 1)]"]
  obtain results keyScores cb' where
    "scoreKeys new_CaesarBreaker (normalizeText ''HI'') [0 .. 25] = Inr results"
    "map fst results = [0 .. 25]"
    "findPossibleKeys 8 new_CaesarBreaker ''HI'' = Inr (keyScores, cb')"
    "mset keyScores = mset results"
    "confidence cb' = clamp ((snd (keyScores ! 0) - snd (keyScores ! 1)) * 10 + 50) 0 100"
    using t [THEN conjunct1] by auto
  then have e: "\<exists>results keyScores cb'.
            scoreKeys new_CaesarBreaker (normalizeText ''HI'') [0 .. 25] = Inr results
          \<and> map fst results = [0 .. 25]
          \<and> findPossibleKeys 8 new_CaesarBreaker ''HI'' = Inr (keyScores, cb')
          \<and> mset keyScores = mset results
          \<and> confidence cb'
              = clamp ((snd (keyScores ! 0) - snd (keyScores ! 1)) * 10 + 50) 0 100"
    by (intro exI conjI)
  have "confidence (rankConfidence [(3, 1)] new_CaesarBreaker) = confidence new_CaesarBreaker"
    using t [THEN conjunct2] by simp
  then show ?thesis using h1 h3 e by (intro conjI)
qed

section \<open>Hill climbing\<close>

lemma hillClimbStep_cases:
  assumes "hillClimbStep ciphertext iteration st = Inr st'"
  shows "(currentScore st < currentScore st'
          \<and> scoreMapping (currentMapping st') ciphertext = Inr (currentScore st'))
       \<or> (currentMapping st' = currentMapping st \<and> currentScore st' = currentScore st)"
  using assms
  by (auto simp: hillClimbStep_def split: sum.splits prod.splits if_splits)

lemma hillClimbStep_mono:
  "hillClimbStep ciphertext iteration st = Inr st' \<Longrightarrow> currentScore st \<le> currentScore st'"
  using hillClimbStep_cases [of ciphertext iteration st st'] by auto

lemma hillClimbStep_scored:
  assumes "hillClimbStep ciphertext iteration st = Inr st'"
    and "scoreMapping (currentMapping st) ciphertext = Inr (currentScore st)"
  shows "scoreMapping (currentMapping st') ciphertext = Inr (currentScore st')"
  using hillClimbStep_cases [OF assms(1)] assms(2) by auto

lemma hillClimbLoop_Suc_Inl:
  "hillClimbStep ciphertext iteration st = Inl e \<Longrightarrow>
     hillClimbLoop ciphertext iteration (Suc n) st = ([], Inl e)"
  by simp

lemma hillClimbLoop_Suc_Inr:
  assumes "hillClimbStep ciphertext iteration st = Inr st'"
  shows "fst (hillClimbLoop ciphertext iteration (Suc n) st)
           = currentScore st' # fst (hillClimbLoop ciphertext (iteration + 1) n st')"
    and "snd (hillClimbLoop ciphertext iteration (Suc n) st)
           = snd (hillClimbLoop ciphertext (iteration + 1) n st')"
  using assms by (simp_all split: prod.splits)

lemma hillClimbLoop_sorted:
  "sorted (currentScore st # fst (hillClimbLoop ciphertext iteration n st))"
proof (induction n arbitrary: iteration st)
  case 0
  then show ?case by simp
next
  case (Suc n)
  show ?case
  proof (cases "hillClimbStep ciphertext iteration st")
    case (Inl e)
    then show ?thesis by (simp only: hillClimbLoop_Suc_Inl) simp
  next
    case (Inr st')
    have "sorted (currentScore st' # fst (hillClimbLoop ciphertext (iteration + 1) n st'))"
      by (rule Suc.IH)
    moreover have "currentScore st \<le> currentScore st'"
      using Inr by (rule hillClimbStep_mono)
    ultimately have "sorted (currentScore st # currentScore st'
                               # fst (hillClimbLoop ciphertext (iteration + 1) n st'))"
      by auto
    then show ?thesis by (simp only: hillClimbLoop_Suc_Inr [OF Inr])
  qed
qed

lemma hillClimbLoop_finished:
  assumes "snd (hillClimbLoop ciphertext iteration n st) = Inr st'"
    and "scoreMapping (currentMapping st) ciphertext = Inr (currentScore st)"
  shows "length (fst (hillClimbLoop ciphertext iteration n st)) = n
       \<and> last (currentScore st # fst (hillClimbLoop ciphertext iteration n st)) = currentScore st'
       \<and> scoreMapping (currentMapping st') ciphertext = Inr (currentScore st')"
  using assms
proof (induction n arbitrary: iteration st)
  case 0
  then show ?case by simp
next
  case (Suc n)
  show ?case
  proof (cases "hillClimbStep ciphertext iteration st")
    case (Inl e)
    then show ?thesis using Suc.prems(1) by (simp only: hillClimbLoop_Suc_Inl) simp
  next
    case (Inr st1)
    have s: "scoreMapping (currentMapping st1) ciphertext = Inr (currentScore st1)"
      using hillClimbStep_scored [OF Inr Suc.prems(2)] .
    have "snd (hillClimbLoop ciphertext (iteration + 1) n st1) = Inr st'"
      using Suc.prems(1) by (simp only: hillClimbLoop_Suc_Inr [OF Inr])
    from Suc.IH [OF this s] show ?thesis
      by (simp only: hillClimbLoop_Suc_Inr [OF Inr]) simp
  qed
qed

lemma hillClimbOptimization_Inl:
  "scoreMapping initialMapping ciphertext = Inl e \<Longrightarrow>
     hillClimbOptimization sb initialMapping ciphertext maxIter = ([], Inl e)"
  by (simp add: hillClimbOptimization_def)

lemma hillClimbOptimization_Inr:
  assumes "scoreMapping initialMapping ciphertext = Inr score0"
  shows "fst (hillClimbOptimization sb initialMapping ciphertext maxIter)
           = score0 # fst (hillClimbLoop ciphertext 0 (nat maxIter)
                \<lparr>currentMapping = initialMapping, currentScore = score0,
                 improvementCount = 0, climb_rng = rng sb,
                 climb_history = optimizationHistory sb\<rparr>)"
    and "snd (hillClimbOptimization sb initialMapping ciphertext maxIter)
           = (case snd (hillClimbLoop ciphertext 0 (nat maxIter)
                \<lparr>currentMapping = initialMapping, currentScore = score0,
                 improvementCount = 0, climb_rng = rng sb,
                 climb_history = optimizationHistory sb\<rparr>) of
                Inl e \<Rightarrow> Inl e
              | Inr st \<Rightarrow> Inr (currentMapping st,
                     sb\<lparr>rng := climb_rng st, optimizationHistory := climb_history st\<rparr>))"
  using assms by (simp_all add: hillClimbOptimization_def split: prod.splits sum.splits)

text \<open>
  Claim C9. In one step of the hill-climbing loop the neighbour is adopted only when
  its score is strictly greater than the current score (and then the current score
  becomes the score of the adopted mapping); otherwise mapping and score stay as they
  are. Hence the values of the current score over a run of \<open>hillClimbOptimization\<close>,
  from the score of the initial mapping through the end of every iteration, never
  decrease, whatever the random draws, the text and the budget are, and also when the
  run is cut short by a failure. A run that returns has gone through all its
  iterations, and the last of these values is the score of the mapping it returns.
\<close>

theorem hill_climbing_score_never_decreases:
  "sorted (fst (hillClimbOptimization sb initialMapping ciphertext maxIter))
   \<and> (case hillClimbStep ciphertext iteration st of
         Inl e \<Rightarrow> True
       | Inr st' \<Rightarrow>
           (currentScore st < currentScore st'
            \<and> scoreMapping (currentMapping st') ciphertext = Inr (currentScore st'))
         \<or> (currentMapping st' = currentMapping st \<and> currentScore st' = currentScore st))
   \<and> (case snd (hillClimbOptimization sb initialMapping ciphertext maxIter) of
         Inl e \<Rightarrow> True
       | Inr result \<Rightarrow>
           length (fst (hillClimbOptimization sb initialMapping ciphertext maxIter))
             = nat maxIter + 1
         \<and> scoreMapping (fst result) ciphertext
             = Inr (last (fst (hillClimbOptimization sb initialMapping ciphertext maxIter))))"
proof -
  have a: "sorted (fst (hillClimbOptimization sb initialMapping ciphertext maxIter))"
  proof (cases "scoreMapping initialMapping ciphertext")
    case (Inl e)
    then show ?thesis by (simp add: hillClimbOptimization_Inl)
  next
    case (Inr score0)
    let ?st0 = "\<lparr>currentMapping = initialMapping, currentScore = score0,
                   improvementCount = 0, climb_rng = rng sb,
                   climb_history = optimizationHistory sb\<rparr>"
    have "sorted (currentScore ?st0 # fst (hillClimbLoop ciphertext 0 (nat maxIter) ?st0))"
      by (rule hillClimbLoop_sorted)
    then show ?thesis by (simp only: hillClimbOptimization_Inr [OF Inr]) simp
  qed
  have b: "(case hillClimbStep ciphertext iteration st of
         Inl e \<Rightarrow> True
       | Inr st' \<Rightarrow>
           (currentScore st < currentScore st'
            \<and> scoreMapping (currentMapping st') ciphertext = Inr (currentScore st'))
         \<or> (currentMapping st' = currentMapping st \<and> currentScore st' = currentScore st))"
    using hillClimbStep_cases [of ciphertext iteration st]
    by (simp split: sum.splits)
  have c: "(case snd (hillClimbOptimization sb initialMapping ciphertext maxIter) of
         Inl e \<Rightarrow> True
       | Inr result \<Rightarrow>
           length (fst (hillClimbOptimization sb initialMapping ciphertext maxIter))
             = nat maxIter + 1
         \<and> scoreMapping (fst result) ciphertext
             = Inr (last (fst (hillClimbOptimization sb initialMapping ciphertext maxIter))))"
  proof (cases "scoreMapping initialMapping ciphertext")
    case (Inl e)
    then show ?thesis by (simp add: hillClimbOptimization_Inl)
  next
    case (Inr score0)
    let ?st0 = "\<lparr>currentMapping = initialMapping, currentScore = score0,
                   improvementCount = 0, climb_rng = rng sb,
                   climb_history = optimizationHistory sb\<rparr>"
    note eq = hillClimbOptimization_Inr [OF Inr, of sb maxIter]
    show ?thesis
    proof (cases "snd (hillClimbLoop ciphertext 0 (nat maxIter) ?st0)")
      case (Inl e)
      then show ?thesis by (simp add: eq)
    next
      case r: (Inr st')
      have "scoreMapping (currentMapping ?st0) ciphertext = Inr (currentScore ?st0)"
        using Inr by simp
      from hillClimbLoop_finished [OF r this] show ?thesis
        by (simp add: eq r)
    qed
  qed
  show ?thesis using a b c by (intro conjI)
qed


theorem hill_climbing_score_never_decreases_witness:
  "sorted (fst (hillClimbOptimization (new_SubstitutionBreaker [4, 19]) (completeMapping []) ''EHT'' 1))
   \<and> length (fst (hillClimbOptimization (new_SubstitutionBreaker [4, 19]) (completeMapping []) ''EHT'' 1)) = 2
   \<and> applyMapping ''EHT''
        (fst (projr (snd (hillClimbOptimization (new_SubstitutionBreaker [4, 19])
                            (completeMapping []) ''EHT'' 1)))) = ''THE''"
proof -
  have "applyMapping ''EHT''
        (fst (projr (snd (hillClimbOptimization (new_SubstitutionBreaker [4, 19])
                            (completeMapping []) ''EHT'' 1)))) = ''THE''"
    by code_simp
  moreover have "length (fst (hillClimbOptimization (new_SubstitutionBreaker [4, 19])
                            (completeMapping []) ''EHT'' 1)) = 2"
    by code_simp
  ultimately show ?thesis
    using hill_climbing_score_never_decreases
      [of "new_SubstitutionBreaker [4, 19]" "completeMapping []" "''EHT''" 1, THEN conjunct1]
    by (intro conjI)
qed

section \<open>Rounding\<close>

lemma nearest_even_error:
  assumes "0 < q"
  shows "\<bar>real_of_int (nearest_even p q) - real_of_int p / real_of_int q\<bar> \<le> 1 / 2"
proof -
  define d where "d = p div q"
  define r where "r = p mod q"
  have pq: "p = d * q + r" by (simp add: d_def r_def)
  have r0: "0 \<le> r" and rq: "r < q" using assms by (simp_all add: r_def)
  have q0: "0 < real_of_int q" using assms by simp
  have frac: "real_of_int p / real_of_int q = real_of_int d + real_of_int r / real_of_int q"
    unfolding pq using q0 by (simp add: add_divide_distrib)
  have rr: "0 \<le> real_of_int r / real_of_int q" "real_of_int r / real_of_int q < 1"
    using r0 rq q0 by simp_all
  consider "2 * r < q" | "q < 2 * r" | "2 * r = q" by linarith
  then show ?thesis
  proof cases
    case 1
    then have ne: "nearest_even p q = d" by (simp add: nearest_even_def d_def r_def Let_def)
    have "2 * real_of_int r < real_of_int q" using 1 by linarith
    then have "real_of_int r / real_of_int q < 1 / 2" using q0 by (simp add: field_simps)
    then show ?thesis unfolding ne frac using rr by simp
  next
    case 2
    then have ne: "nearest_even p q = d + 1" by (simp add: nearest_even_def d_def r_def Let_def)
    have "real_of_int q < 2 * real_of_int r" using 2 by linarith
    then have "1 / 2 < real_of_int r / real_of_int q" using q0 by (simp add: field_simps)
    then show ?thesis unfolding ne frac using rr by simp
  next
    case 3
    then have ne: "nearest_even p q = d \<or> nearest_even p q = d + 1"
      by (simp add: nearest_even_def d_def r_def Let_def)
    have "2 * real_of_int r = real_of_int q" using 3 by linarith
    then have "real_of_int r / real_of_int q = 1 / 2" using q0 by (simp add: field_simps)
    then show ?thesis using ne unfolding frac by auto
  qed
qed

lemma normalize53_value:
  assumes "normalize53 fuel p q lo e = (p', q', e')" and "0 < p" and "0 < q"
  shows "0 < p' \<and> 0 < q'
       \<and> real_of_int p' / real_of_int q' * 2 powi e' = real_of_int p / real_of_int q * 2 powi e"
  using assms
proof (induction fuel p q lo e rule: normalize53.induct)
  case (1 p q lo e)
  then show ?case by simp
next
  case (2 fuel p q lo e)
  show ?case
  proof (cases "p < lo")
    case True
    then have "normalize53 fuel (2 * p) q lo (e - 1) = (p', q', e')" using "2.prems"(1) by simp
    from "2.IH"(1) [OF True this] "2.prems"(2,3)
    have "0 < p' \<and> 0 < q' \<and> real_of_int p' / real_of_int q' * 2 powi e'
            = real_of_int (2 * p) / real_of_int q * 2 powi (e - 1)" by simp
    moreover have "real_of_int (2 * p) / real_of_int q * 2 powi (e - 1)
            = real_of_int p / real_of_int q * 2 powi e"
      by (simp add: power_int_diff)
    ultimately show ?thesis by simp
  next
    case False
    show ?thesis
    proof (cases "2 * lo \<le> p")
      case True
      then have "normalize53 fuel p (2 * q) (2 * lo) (e + 1) = (p', q', e')"
        using "2.prems"(1) False by simp
      from "2.IH"(2) [OF False True this] "2.prems"(2,3)
      have "0 < p' \<and> 0 < q' \<and> real_of_int p' / real_of_int q' * 2 powi e'
            = real_of_int p / real_of_int (2 * q) * 2 powi (e + 1)" by simp
      moreover have "real_of_int p / real_of_int (2 * q) * 2 powi (e + 1)
            = real_of_int p / real_of_int q * 2 powi e"
        by (simp add: power_int_add)
      ultimately show ?thesis by simp
    next
      case False2: False
      then show ?thesis using False "2.prems" by simp
    qed
  qed
qed

lemma normalize53_range:
  assumes "normalize53 fuel p q lo e = (p', q', e')" and "0 < p" and "0 < q"
    and "lo = 4503599627370496 * q"
    and "lo \<le> p * 2 ^ fuel" and "p < 2 * lo * 2 ^ fuel"
  shows "4503599627370496 * q' \<le> p' \<and> p' < 9007199254740992 * q'"
  using assms
proof (induction fuel p q lo e rule: normalize53.induct)
  case (1 p q lo e)
  then show ?case by simp
next
  case (2 fuel p q lo e)
  show ?case
  proof (cases "p < lo")
    case True
    then have r: "normalize53 fuel (2 * p) q lo (e - 1) = (p', q', e')" using "2.prems"(1) by simp
    have a: "lo \<le> 2 * p * 2 ^ fuel" using "2.prems"(5) by (simp add: mult.assoc)
    have "0 < lo" using "2.prems"(3,4) by simp
    then have "2 * p < 2 * lo * 1" using True by simp
    also have "\<dots> \<le> 2 * lo * 2 ^ fuel" using \<open>0 < lo\<close> by (intro mult_left_mono) simp_all
    finally have b: "2 * p < 2 * lo * 2 ^ fuel" .
    show ?thesis using "2.IH"(1) [OF True r _ "2.prems"(3,4) a b] "2.prems"(2) by simp
  next
    case False
    show ?thesis
    proof (cases "2 * lo \<le> p")
      case True
      then have r: "normalize53 fuel p (2 * q) (2 * lo) (e + 1) = (p', q', e')"
        using "2.prems"(1) False by simp
      have l: "2 * lo = 4503599627370496 * (2 * q)" using "2.prems"(4) by simp
      have "0 < lo" using "2.prems"(3,4) by simp
      have "2 * lo * 1 \<le> p * 1" using True by simp
      also have "\<dots> \<le> p * 2 ^ fuel" using "2.prems"(2) by (intro mult_left_mono) simp_all
      finally have a: "2 * lo \<le> p * 2 ^ fuel" by simp
      have b: "p < 2 * (2 * lo) * 2 ^ fuel" using "2.prems"(6) by (simp add: mult.assoc)
      have q2: "0 < 2 * q" using "2.prems"(3) by simp
      show ?thesis using "2.IH"(2) [OF False True r "2.prems"(2) q2 l a b] by simp
    next
      case False2: False
      then show ?thesis using False "2.prems" by simp
    qed
  qed
qed

lemma nearest_even_range:
  assumes "0 < q" and "lo * q \<le> p" and "p < hi * q"
  shows "lo \<le> nearest_even p q \<and> nearest_even p q \<le> hi"
proof -
  have "(lo * q) div q \<le> p div q" using assms(2,1) by (rule zdiv_mono1)
  then have a: "lo \<le> p div q" using assms(1) by simp
  have "0 \<le> p mod q" using assms(1) by simp
  moreover have "p div q * q + p mod q = p" by simp
  ultimately have "p div q * q \<le> p" by linarith
  then have "p div q * q < hi * q" using assms(3) by linarith
  then have b: "p div q < hi" using assms(1) by simp
  have "nearest_even p q = p div q \<or> nearest_even p q = p div q + 1"
    by (simp add: nearest_even_def Let_def)
  then show ?thesis using a b by auto
qed

text \<open>
  The double nearest to a positive quotient differs from it by at most the fraction
  \<open>2^-53\<close> of the quotient, and its significand has 53 bits.
\<close>

lemma round53_error:
  assumes "0 < p" and "0 < q"
    and "4503599627370496 * q \<le> p * 2 ^ 2200"
    and "p < 2 * (4503599627370496 * q) * 2 ^ 2200"
    and "round53 p q e = (m, e')"
  shows "4503599627370496 \<le> m" and "m \<le> 9007199254740992"
    and "\<bar>double_value (m, e') - real_of_int p / real_of_int q * 2 powi e\<bar>
           \<le> real_of_int p / real_of_int q * 2 powi e / 2 ^ 53"
proof -
  obtain p' q' e'' where n: "normalize53 2200 p q (4503599627370496 * q) e = (p', q', e'')"
    by (cases "normalize53 2200 p q (4503599627370496 * q) e") auto
  have r: "round53 p q e = (nearest_even p' q', e'')"
    using assms(1,2) n by (simp add: round53_def)
  then have m: "m = nearest_even p' q'" and e': "e' = e''" using assms(5) by simp_all
  from normalize53_value [OF n assms(1,2)]
  have p': "0 < p'" and q': "0 < q'"
    and v: "real_of_int p' / real_of_int q' * 2 powi e'' = real_of_int p / real_of_int q * 2 powi e"
    by simp_all
  from normalize53_range [OF n assms(1,2) refl assms(3,4)]
  have lo: "4503599627370496 * q' \<le> p'" and hi: "p' < 9007199254740992 * q'" by simp_all
  from nearest_even_range [OF q' lo hi]
  show "4503599627370496 \<le> m" and "m \<le> 9007199254740992" unfolding m by simp_all
  define x where "x = real_of_int p' / real_of_int q'"
  have "real_of_int (4503599627370496 * q') \<le> real_of_int p'" using lo by linarith
  then have x52: "2 ^ 52 \<le> x" using q' by (simp add: x_def pos_le_divide_eq)
  have pw: "0 < (2::real) powi e''" by simp
  have "\<bar>real_of_int m - x\<bar> \<le> 1 / 2"
    unfolding m x_def by (rule nearest_even_error [OF q'])
  also have "\<dots> \<le> x / 2 ^ 53" using x52 by simp
  finally have "\<bar>real_of_int m - x\<bar> * 2 powi e'' \<le> x / 2 ^ 53 * 2 powi e''"
    using pw by (simp add: mult_right_mono)
  moreover have "\<bar>real_of_int m - x\<bar> * 2 powi e'' = \<bar>real_of_int m * 2 powi e'' - x * 2 powi e''\<bar>"
    using pw by (simp add: abs_mult left_diff_distrib [symmetric])
  ultimately have "\<bar>real_of_int m * 2 powi e'' - x * 2 powi e''\<bar> \<le> x * 2 powi e'' / 2 ^ 53"
    by simp
  then show "\<bar>double_value (m, e') - real_of_int p / real_of_int q * 2 powi e\<bar>
           \<le> real_of_int p / real_of_int q * 2 powi e / 2 ^ 53"
    unfolding double_value_def e' x_def v by simp
qed

text \<open>
  A percentage of \<open>normalizeFrequencies\<close> is within the fraction \<open>300 * 2^-53\<close> of the
  exact share of \<open>n\<close> in \<open>t\<close>, as a percentage.
\<close>

lemma percentage_error:
  assumes "0 < n" and "n \<le> t" and "t < 2147483648"
  shows "0 < percentage n t"
    and "\<bar>percentage n t - 100 * (real_of_int n / real_of_int t)\<bar>
           \<le> 300 / 2 ^ 53 * (real_of_int n / real_of_int t)"
proof -
  have t: "0 < t" using assms(1,2) by simp
  obtain m1 e1 where d1: "round53 n t 0 = (m1, e1)" by (cases "round53 n t 0") auto
  have big: "(2::int) ^ 83 \<le> 2 ^ 2200" by (rule power_increasing) simp_all
  have "4503599627370496 * t \<le> 4503599627370496 * 2147483648" using assms(3) by simp
  also have "\<dots> = 2 ^ 83" by simp
  also have "\<dots> \<le> 1 * 2 ^ 2200" using big by simp
  also have "\<dots> \<le> n * 2 ^ 2200" using assms(1) by (intro mult_right_mono) simp_all
  finally have f1: "4503599627370496 * t \<le> n * 2 ^ 2200" .
  have "n < 2 * (4503599627370496 * t) * 1" using assms(2) t by simp
  also have "\<dots> \<le> 2 * (4503599627370496 * t) * 2 ^ 2200"
    using t by (intro mult_left_mono) simp_all
  finally have f2: "n < 2 * (4503599627370496 * t) * 2 ^ 2200" .
  note r1 = round53_error [OF assms(1) t f1 f2 d1]
  define a where "a = real_of_int n / real_of_int t"
  define b where "b = double_value (m1, e1)"
  define u where "u = 1 / (2::real) ^ 53"
  have a0: "0 < a" using assms(1) t by (simp add: a_def)
  have u0: "0 < u" and u1: "u \<le> 1" by (simp_all add: u_def)
  have ba: "\<bar>b - a\<bar> \<le> a * u" using r1(3) by (simp add: a_def b_def u_def)
  have m1: "0 < m1" using r1(1) by simp
  obtain m2 e2 where d2: "round53 (m1 * 100) 1 (e1 + 0) = (m2, e2)"
    by (cases "round53 (m1 * 100) 1 (e1 + 0)") auto
  have p2: "0 < m1 * 100" using m1 by simp
  have "4503599627370496 * 1 \<le> m1 * 100 * 1" using r1(1) by simp
  also have "\<dots> \<le> m1 * 100 * 2 ^ 2200" using p2 by (intro mult_left_mono) simp_all
  finally have g1: "4503599627370496 * 1 \<le> m1 * 100 * 2 ^ 2200" .
  have "m1 * 100 < 2 * (4503599627370496 * 1) * 2 ^ 83" using r1(2) by simp
  also have "\<dots> \<le> 2 * (4503599627370496 * 1) * 2 ^ 2200"
    using big by (intro mult_left_mono) simp_all
  finally have g2: "m1 * 100 < 2 * (4503599627370496 * 1) * 2 ^ 2200" .
  note r2 = round53_error [OF p2 _ g1 g2 d2]
  define v where "v = double_value (m2, e2)"
  have c: "real_of_int (m1 * 100) / real_of_int 1 * 2 powi (e1 + 0) = 100 * b"
    by (simp add: b_def double_value_def)
  have vb: "\<bar>v - 100 * b\<bar> \<le> 100 * b * u"
    using r2(3) unfolding c by (simp add: v_def u_def)
  have pv: "percentage n t = v"
    by (simp add: percentage_def double_div_def double_mult_def double_of_int_def d1 v_def)
      (use d2 in simp)
  have b_le: "b \<le> a * (1 + u)" using ba by (simp add: abs_le_iff algebra_simps)
  have b_ge: "a * (1 - u) \<le> b" using ba by (simp add: abs_le_iff algebra_simps)
  have "100 * b * u \<le> 100 * (a * (1 + u)) * u"
    using b_le u0 by (intro mult_right_mono mult_left_mono) simp_all
  also have "\<dots> \<le> 100 * (a * 2) * u"
    using u1 a0 u0 by (intro mult_right_mono mult_left_mono) simp_all
  finally have e2: "100 * b * u \<le> 200 * a * u" by simp
  have "\<bar>v - 100 * a\<bar> \<le> 200 * a * u + 100 * (a * u)" using vb e2 ba by linarith
  then have "\<bar>v - 100 * a\<bar> \<le> 300 * a * u" by simp
  then show "\<bar>percentage n t - 100 * (real_of_int n / real_of_int t)\<bar>
           \<le> 300 / 2 ^ 53 * (real_of_int n / real_of_int t)"
    unfolding pv a_def u_def by simp
  have "0 < m2" using r2(1) by simp
  then show "0 < percentage n t" unfolding pv v_def double_value_def by simp
qed

section \<open>Ordered maps\<close>

lemma map_put_keys: "set (map fst (map_put k v m)) = insert k (set (map fst m))"
proof (induction m)
  case Nil
  then show ?case by simp
next
  case (Cons p m)
  obtain k' v' where p: "p = (k', v')" by (cases p)
  show ?case unfolding p using Cons.IH by (cases "k < k'"; cases "k = k'") auto
qed

lemma map_put_sorted:
  "sorted_wrt (<) (map fst m) \<Longrightarrow> sorted_wrt (<) (map fst (map_put k v m))"
proof (induction m)
  case Nil
  then show ?case by simp
next
  case (Cons p m)
  obtain k' v' where p: "p = (k', v')" by (cases p)
  have tl: "sorted_wrt (<) (map fst m)" and hd: "\<forall>x \<in> set (map fst m). k' < x"
    using Cons.prems unfolding p by auto
  show ?case
  proof (cases "k < k'")
    case True
    then show ?thesis using Cons.prems unfolding p by auto
  next
    case False
    show ?thesis
    proof (cases "k = k'")
      case True
      then show ?thesis using Cons.prems unfolding p by auto
    next
      case False
      then have "k' < k" using \<open>\<not> k < k'\<close> by simp
      then have "\<forall>x \<in> set (map fst (map_put k v m)). k' < x"
        using hd by (simp only: map_put_keys) simp
      then show ?thesis using Cons.IH [OF tl] False \<open>\<not> k < k'\<close> unfolding p by simp
    qed
  qed
qed

lemma map_of_sorted_less:
  fixes k :: "'k::linorder"
  shows "\<forall>k' \<in> set (map fst m). k < k' \<Longrightarrow> map_of m k = None"
  by (induction m) (auto split: if_splits)

lemma map_of_map_put:
  "sorted_wrt (<) (map fst m) \<Longrightarrow> map_of (map_put k v m) = (map_of m)(k \<mapsto> v)"
proof (induction m)
  case Nil
  then show ?case by simp
next
  case (Cons p m)
  obtain k' v' where p: "p = (k', v')" by (cases p)
  have tl: "sorted_wrt (<) (map fst m)" and hd: "\<forall>x \<in> set (map fst m). k' < x"
    using Cons.prems unfolding p by auto
  show ?case
  proof (cases "k < k'")
    case True
    then show ?thesis unfolding p by (auto simp: fun_eq_iff)
  next
    case False
    show ?thesis
    proof (cases "k = k'")
      case True
      then show ?thesis unfolding p by (simp add: fun_eq_iff)
    next
      case False
      then show ?thesis using \<open>\<not> k < k'\<close> Cons.IH [OF tl] unfolding p
        by (auto simp: fun_eq_iff)
    qed
  qed
qed

lemma map_get_map_put:
  "sorted_wrt (<) (map fst m) \<Longrightarrow>
     map_get d (map_put k v m) k' = (if k' = k then v else map_get d m k')"
  by (simp add: map_get_def map_of_map_put)

lemma map_of_None_iff: "map_of m k = None \<longleftrightarrow> k \<notin> set (map fst m)"
  by (simp add: map_of_eq_None_iff)

lemma map_put_sum:
  fixes m :: "('k::linorder \<times> int) list"
  shows "sorted_wrt (<) (map fst m) \<Longrightarrow>
     sum_list (map snd (map_put k v m)) = sum_list (map snd m) - map_get 0 m k + v"
proof (induction m)
  case Nil
  then show ?case by (simp add: map_get_def)
next
  case (Cons p m)
  obtain k' v' where p: "p = (k', v')" by (cases p)
  have tl: "sorted_wrt (<) (map fst m)" and hd: "\<forall>x \<in> set (map fst m). k' < x"
    using Cons.prems unfolding p by auto
  show ?case
  proof (cases "k < k'")
    case True
    have "\<forall>x \<in> set (map fst (p # m)). k < x" using True hd unfolding p by auto
    then have "map_of (p # m) k = None" by (rule map_of_sorted_less)
    then show ?thesis using True unfolding p by (simp add: map_get_def)
  next
    case False
    show ?thesis
    proof (cases "k = k'")
      case True
      then show ?thesis unfolding p by (simp add: map_get_def)
    next
      case False
      then show ?thesis using \<open>\<not> k < k'\<close> Cons.IH [OF tl] unfolding p
        by (simp add: map_get_def)
    qed
  qed
qed

section \<open>Letter frequencies\<close>

text \<open>How often the letter \<open>c\<close> occurs in a text, in either case.\<close>

lemma countChar_fold:
  assumes "sorted_wrt (<) (map fst counts0)"
  shows "sorted_wrt (<) (map fst (fst (foldl countChar (counts0, total0) str)))
       \<and> snd (foldl countChar (counts0, total0) str)
           = total0 + int (length (filter isalpha str))
       \<and> set (map fst (fst (foldl countChar (counts0, total0) str)))
           = set (map fst counts0) \<union> toupper ` {c \<in> set str. isalpha c}
       \<and> (\<forall>c. map_get 0 (fst (foldl countChar (counts0, total0) str)) c
               = map_get 0 counts0 c
                 + int (length (filter (\<lambda>x. isalpha x \<and> toupper x = c) str)))
       \<and> sum_list (map snd (fst (foldl countChar (counts0, total0) str)))
           = sum_list (map snd counts0) + int (length (filter isalpha str))"
  using assms
proof (induction str arbitrary: counts0 total0)
  case Nil
  then show ?case by simp
next
  case (Cons x xs)
  show ?case
  proof (cases "isalpha x")
    case False
    then have "countChar (counts0, total0) x = (counts0, total0)"
      by (simp add: countChar_def)
    then show ?thesis using Cons.IH [OF Cons.prems, of total0] False by auto
  next
    case True
    let ?c1 = "map_put (toupper x) (map_get 0 counts0 (toupper x) + 1) counts0"
    have step: "countChar (counts0, total0) x = (?c1, total0 + 1)"
      using True by (simp add: countChar_def)
    have s1: "sorted_wrt (<) (map fst ?c1)" using Cons.prems by (rule map_put_sorted)
    note ih = Cons.IH [OF s1, of "total0 + 1"]
    have k1: "set (map fst ?c1) = insert (toupper x) (set (map fst counts0))"
      by (rule map_put_keys)
    have g1: "map_get 0 ?c1 c = map_get 0 counts0 c + (if c = toupper x then 1 else 0)" for c
      using Cons.prems by (simp add: map_get_map_put)
    have m1: "sum_list (map snd ?c1) = sum_list (map snd counts0) + 1"
      using map_put_sum [OF Cons.prems, of "toupper x" "map_get 0 counts0 (toupper x) + 1"]
      by simp
    let ?r = "foldl countChar (?c1, total0 + 1) xs"
    have r: "foldl countChar (counts0, total0) (x # xs) = ?r"
      by (simp only: foldl_Cons step)
    have a: "sorted_wrt (<) (map fst (fst ?r))" using ih by blast
    have b: "snd ?r = total0 + int (length (filter isalpha (x # xs)))"
      using ih True by simp
    have "set (map fst (fst ?r)) = set (map fst ?c1) \<union> toupper ` {c \<in> set xs. isalpha c}"
      using ih by blast
    also have "\<dots> = set (map fst counts0) \<union> toupper ` {c \<in> set (x # xs). isalpha c}"
      unfolding k1 using True by auto
    finally have c: "set (map fst (fst ?r))
        = set (map fst counts0) \<union> toupper ` {c \<in> set (x # xs). isalpha c}" .
    have d: "map_get 0 (fst ?r) c = map_get 0 counts0 c
                 + int (length (filter (\<lambda>y. isalpha y \<and> toupper y = c) (x # xs)))" for c
    proof -
      have "map_get 0 (fst ?r) c = map_get 0 ?c1 c
                 + int (length (filter (\<lambda>y. isalpha y \<and> toupper y = c) xs))"
        using ih by blast
      then show ?thesis using True by (simp add: g1)
    qed
    have e: "sum_list (map snd (fst ?r))
           = sum_list (map snd counts0) + int (length (filter isalpha (x # xs)))"
    proof -
      have "sum_list (map snd (fst ?r)) = sum_list (map snd ?c1) + int (length (filter isalpha xs))"
        using ih by blast
      then show ?thesis using True by (simp add: m1)
    qed
    show ?thesis unfolding r using a b c d e by blast
  qed
qed

lemma countLetters_facts:
  "sorted_wrt (<) (map fst (fst (countLetters str)))"
  "snd (countLetters str) = int (length (filter isalpha str))"
  "set (map fst (fst (countLetters str))) = toupper ` {c \<in> set str. isalpha c}"
  "map_get 0 (fst (countLetters str)) c = int (letterCount c str)"
  "sum_list (map snd (fst (countLetters str))) = int (length (filter isalpha str))"
  using countChar_fold [of "[]" 0 str]
  by (simp_all add: countLetters_def letterCount_def map_get_def)

lemma letterCount_zero_iff:
  "letterCount c str = 0 \<longleftrightarrow> c \<notin> toupper ` {x \<in> set str. isalpha x}"
  by (auto simp: letterCount_def filter_empty_conv)

lemma countLetters_lookup:
  "map_of (fst (countLetters str)) c
     = (if letterCount c str = 0 then None else Some (int (letterCount c str)))"
proof (cases "letterCount c str = 0")
  case True
  then have "c \<notin> set (map fst (fst (countLetters str)))"
    unfolding countLetters_facts(3) by (simp add: letterCount_zero_iff)
  then show ?thesis using True by (simp add: map_of_None_iff)
next
  case False
  then have "c \<in> set (map fst (fst (countLetters str)))"
    unfolding countLetters_facts(3) by (simp add: letterCount_zero_iff)
  then obtain n where n: "map_of (fst (countLetters str)) c = Some n"
    using map_of_None_iff [of "fst (countLetters str)" c] by auto
  then have "map_get 0 (fst (countLetters str)) c = n" by (simp add: map_get_def)
  then show ?thesis using n False by (simp add: countLetters_facts(4))
qed

lemma map_of_scaled:
  "map_of (map (\<lambda>(c, n). (c, f n)) m) k = map_option f (map_of m k)"
  by (induction m) auto

lemma map_fst_scaled: "map fst (map (\<lambda>(c, n). (c, f n)) m) = map fst m"
  by (induction m) auto

lemma sum_list_error:
  fixes f g h :: "'a \<Rightarrow> real"
  assumes "\<forall>x \<in> set xs. \<bar>f x - g x\<bar> \<le> h x"
  shows "\<bar>sum_list (map f xs) - sum_list (map g xs)\<bar> \<le> sum_list (map h xs)"
  using assms
proof (induction xs)
  case Nil
  then show ?case by simp
next
  case (Cons x xs)
  have "\<bar>f x - g x\<bar> \<le> h x" using Cons.prems by simp
  moreover have "\<bar>sum_list (map f xs) - sum_list (map g xs)\<bar> \<le> sum_list (map h xs)"
    using Cons by simp
  ultimately show ?case by (simp add: abs_le_iff)
qed

lemma letterCount_le: "letterCount c str \<le> length (filter isalpha str)"
proof -
  have "filter (\<lambda>x. isalpha x \<and> toupper x = c) str = filter (\<lambda>x. toupper x = c) (filter isalpha str)"
    by (simp add: conj_commute)
  then show ?thesis unfolding letterCount_def by (simp only: length_filter_le)
qed

lemma countLetters_entry:
  assumes "(c, n) \<in> set (fst (countLetters str))"
  shows "n = int (letterCount c str)" and "0 < n" and "n \<le> int (length (filter isalpha str))"
proof -
  have d: "distinct (map fst (fst (countLetters str)))"
    using countLetters_facts(1) [of str] strict_sorted_iff by blast
  then have "map_of (fst (countLetters str)) c = Some n" using assms by simp
  then have l: "(if letterCount c str = 0 then None else Some (int (letterCount c str))) = Some n"
    by (simp only: countLetters_lookup)
  then show n: "n = int (letterCount c str)" by (simp split: if_splits)
  show "0 < n" using l by (simp split: if_splits) 
  show "n \<le> int (length (filter isalpha str))" unfolding n using letterCount_le by simp
qed

lemma calculateFrequency_table:
  "calculateFrequency text
     = (if filter isalpha text = [] then []
        else map (\<lambda>(c, n). (c, percentage n (int (length (filter isalpha text)))))
                 (fst (countLetters text)))"
proof -
  have t: "snd (countLetters text) = int (length (filter isalpha text))"
    by (simp add: countLetters_facts(2))
  show ?thesis
    using t by (cases "countLetters text") (simp add: calculateFrequency_def normalizeFrequencies_def)
qed

lemma sum_list_shares:
  fixes m :: "(char \<times> int) list"
  shows "sum_list (map (\<lambda>(c, n). k * (real_of_int n / t)) m)
           = k * (real_of_int (sum_list (map snd m)) / t)"
  by (induction m) (auto simp: add_divide_distrib distrib_left)

text \<open>
  Claim C6, as the code has it. Read through a lookup that gives 0 for a letter without
  an entry (as \<open>chiSquaredTest\<close> reads it), the table of \<open>calculateFrequency\<close> gives every
  letter its percentage among the letters of the text, 0 for a letter that does not occur
  and 0 for every letter when the text has no letter. The table itself holds an entry
  only for the letters that occur, in alphabetical order, and is empty when the text has
  no letter. A percentage is the quotient of two counters as a \<open>double\<close>, times 100 as a
  \<open>double\<close>; on a text with a letter (and fewer than \<open>2^31\<close> characters) it is within
  \<open>300 * 2^-53\<close> of the exact percentage, and the percentages add up to 100 within
  \<open>300 * 2^-53\<close>, not always to 100.
\<close>

theorem frequency_table_lookup_and_rounded_sum:
  "map_get 0 (calculateFrequency text) c
     = (if letterCount c text = 0 then 0
        else percentage (int (letterCount c text)) (int (length (filter isalpha text))))
   \<and> sorted_wrt (<) (map fst (calculateFrequency text))
   \<and> set (map fst (calculateFrequency text)) = toupper ` {x \<in> set text. isalpha x}
   \<and> (filter isalpha text = [] \<longrightarrow> calculateFrequency text = [])
   \<and> (filter isalpha text \<noteq> [] \<and> length text < 2147483648 \<longrightarrow>
         \<bar>map_get 0 (calculateFrequency text) c
            - 100 * (real (letterCount c text) / real (length (filter isalpha text)))\<bar>
           \<le> 300 / 2 ^ 53
       \<and> \<bar>sum_list (map snd (calculateFrequency text)) - 100\<bar> \<le> 300 / 2 ^ 53)"
proof -
  let ?counts = "fst (countLetters text)"
  let ?N = "length (filter isalpha text)"
  let ?cf = "calculateFrequency text"
  note cf = calculateFrequency_table [of "text"]
  have a: "map_get 0 ?cf c
     = (if letterCount c text = 0 then 0 else percentage (int (letterCount c text)) (int ?N))"
  proof (cases "filter isalpha text = []")
    case True
    then have "letterCount c text = 0" by (auto simp: letterCount_def filter_empty_conv)
    then show ?thesis using True by (simp add: cf map_get_def)
  next
    case False
    then show ?thesis by (simp add: cf map_get_def map_of_scaled countLetters_lookup)
  qed
  have b: "sorted_wrt (<) (map fst ?cf)"
  proof (cases "filter isalpha text = []")
    case True
    then show ?thesis by (simp add: cf)
  next
    case False
    then have "map fst ?cf = map fst ?counts" by (simp only: cf if_False map_fst_scaled)
    then show ?thesis by (simp only: countLetters_facts(1))
  qed
  have c: "set (map fst ?cf) = toupper ` {x \<in> set text. isalpha x}"
  proof (cases "filter isalpha text = []")
    case True
    then have "toupper ` {x \<in> set text. isalpha x} = {}" by (auto simp: filter_empty_conv)
    then show ?thesis using True by (simp add: cf)
  next
    case False
    then have "map fst ?cf = map fst ?counts" by (simp only: cf if_False map_fst_scaled)
    then show ?thesis by (simp only: countLetters_facts(3))
  qed
  have d: "filter isalpha text = [] \<longrightarrow> ?cf = []" by (simp add: cf)
  have e: "\<bar>map_get 0 ?cf c - 100 * (real (letterCount c text) / real ?N)\<bar> \<le> 300 / 2 ^ 53
           \<and> \<bar>sum_list (map snd ?cf) - 100\<bar> \<le> 300 / 2 ^ 53"
    if ne: "filter isalpha text \<noteq> []" and len: "length text < 2147483648"
  proof -
    have N0: "0 < ?N" using ne by simp
    have "?N \<le> length text" by simp
    then have N31: "int ?N < 2147483648" using len by linarith
    have entry: "\<bar>percentage n (int ?N) - 100 * (real_of_int n / real ?N)\<bar>
                   \<le> 300 / 2 ^ 53 * (real_of_int n / real ?N)"
      if "0 < n" "n \<le> int ?N" for n
      using percentage_error(2) [OF that N31] by simp
    have e1: "\<bar>map_get 0 ?cf c - 100 * (real (letterCount c text) / real ?N)\<bar> \<le> 300 / 2 ^ 53"
    proof (cases "letterCount c text = 0")
      case True
      then show ?thesis by (simp add: a)
    next
      case False
      let ?n = "int (letterCount c text)"
      have n: "0 < ?n" "?n \<le> int ?N" using False letterCount_le [of c "text"] by simp_all
      have "real_of_int ?n / real ?N \<le> 1" using n N0 by simp
      then have "300 / 2 ^ 53 * (real_of_int ?n / real ?N) \<le> 300 / 2 ^ 53 * 1"
        by (intro mult_left_mono) simp_all
      then show ?thesis using entry [OF n] False by (simp add: a)
    qed
    let ?f = "\<lambda>(c, n). percentage n (int ?N)"
    let ?g = "\<lambda>(c :: char, n). 100 * (real_of_int n / real ?N)"
    let ?h = "\<lambda>(c :: char, n). 300 / 2 ^ 53 * (real_of_int n / real ?N)"
    have s: "map snd ?cf = map ?f ?counts"
      using ne by (simp add: cf case_prod_unfold)
    have "\<forall>x \<in> set ?counts. \<bar>?f x - ?g x\<bar> \<le> ?h x"
    proof
      fix x assume x: "x \<in> set ?counts"
      obtain k n where kn: "x = (k, n)" by (cases x)
      have "0 < n" "n \<le> int ?N" using countLetters_entry [of k n "text"] x kn by simp_all
      from entry [OF this] show "\<bar>?f x - ?g x\<bar> \<le> ?h x" by (simp add: kn)
    qed
    then have "\<bar>sum_list (map ?f ?counts) - sum_list (map ?g ?counts)\<bar>
                 \<le> sum_list (map ?h ?counts)"
      by (rule sum_list_error)
    moreover have "sum_list (map ?g ?counts) = 100 * (real_of_int (int ?N) / real ?N)"
      by (simp only: sum_list_shares countLetters_facts(5))
    moreover have "sum_list (map ?h ?counts) = 300 / 2 ^ 53 * (real_of_int (int ?N) / real ?N)"
      by (simp only: sum_list_shares countLetters_facts(5))
    moreover have "real_of_int (int ?N) / real ?N = 1" using N0 by simp
    ultimately have "\<bar>sum_list (map snd ?cf) - 100\<bar> \<le> 300 / 2 ^ 53"
      by (simp only: s mult_1_right)
    then show ?thesis using e1 by (intro conjI)
  qed
  show ?thesis using a b c d e by (intro conjI impI) blast+
qed

theorem frequency_table_lookup_and_rounded_sum_witness:
  "filter isalpha ''Hello'' \<noteq> [] \<and> length ''Hello'' < 2147483648
   \<and> map_get 0 (calculateFrequency ''Hello'') (CHR ''L'') = 40
   \<and> map_get 0 (calculateFrequency ''Hello'') (CHR ''Z'') = 0
   \<and> set (map fst (calculateFrequency ''Hello'')) = {CHR ''E'', CHR ''H'', CHR ''L'', CHR ''O''}
   \<and> \<bar>sum_list (map snd (calculateFrequency ''Hello'')) - 100\<bar> \<le> 300 / 2 ^ 53
   \<and> calculateFrequency ''12 34'' = []"
proof -
  have l: "letterCount (CHR ''L'') ''Hello'' = 2" by code_simp
  have z: "letterCount (CHR ''Z'') ''Hello'' = 0" by code_simp
  have n: "length (filter isalpha ''Hello'') = 5" by code_simp
  have p: "percentage 2 5 = 40" by code_simp
  have k: "toupper ` {x \<in> set ''Hello''. isalpha x} = {CHR ''E'', CHR ''H'', CHR ''L'', CHR ''O''}"
    by code_simp
  have h1: "filter isalpha ''Hello'' \<noteq> []" by code_simp
  have h2: "length ''Hello'' < 2147483648" by simp
  have d: "filter isalpha ''12 34'' = []" by code_simp
  note t1 = frequency_table_lookup_and_rounded_sum [of "''Hello''" "CHR ''L''"]
  note t2 = frequency_table_lookup_and_rounded_sum [of "''Hello''" "CHR ''Z''"]
  note t3 = frequency_table_lookup_and_rounded_sum [of "''12 34''" "CHR ''A''"]
  have "map_get 0 (calculateFrequency ''Hello'') (CHR ''L'') = 40"
    using t1 [THEN conjunct1] by (simp only: l n) (simp add: p)
  moreover have "map_get 0 (calculateFrequency ''Hello'') (CHR ''Z'') = 0"
    using t2 [THEN conjunct1] by (simp only: z) simp
  moreover have "set (map fst (calculateFrequency ''Hello''))
                   = {CHR ''E'', CHR ''H'', CHR ''L'', CHR ''O''}"
    using t1 [THEN conjunct2, THEN conjunct2, THEN conjunct1] by (simp only: k)
  moreover have "\<bar>sum_list (map snd (calculateFrequency ''Hello'')) - 100\<bar> \<le> 300 / 2 ^ 53"
    using t1 [THEN conjunct2, THEN conjunct2, THEN conjunct2, THEN conjunct2] h1 h2 by blast
  moreover have "calculateFrequency ''12 34'' = []"
    using t3 [THEN conjunct2, THEN conjunct2, THEN conjunct2, THEN conjunct1] d by blast
  ultimately show ?thesis using h1 h2 by (intro conjI)
qed

text \<open>
  Claim C6 as the specification words it (the values sum to 100) fails. For each of the
  three letters of \<open>"abc"\<close> the quotient \<open>1 / 3\<close> is rounded to the double
  \<open>0.33333333333333331483\<close>, and 100 times this to the double
  \<open>33.33333333333332859638\<close>; the three values add up to \<open>100 - 2^-46\<close>, which is
  \<open>99.99999999999998579\<close>.
\<close>

theorem frequency_sum_not_100_counterexample:
  "calculateFrequency ''abc''
     = [(CHR ''A'', 4691249611844266 / 2 ^ 47), (CHR ''B'', 4691249611844266 / 2 ^ 47),
        (CHR ''C'', 4691249611844266 / 2 ^ 47)]
   \<and> sum_list (map snd (calculateFrequency ''abc'')) = 100 - 1 / 2 ^ 46
   \<and> sum_list (map snd (calculateFrequency ''abc'')) \<noteq> 100"
  by code_simp

section \<open>The solvers' scoring functions\<close>

lemma chiSquaredTest_nonneg: "0 \<le> chiSquaredTest observed expected"
  unfolding chiSquaredTest_def
  by (rule sum_list_nonneg) (auto simp: Let_def)

lemma calculateChiSquared_nonneg: "0 \<le> calculateChiSquared st t"
  by (simp add: calculateChiSquared_def Let_def chiSquaredTest_nonneg)

lemma normalizeScore_unit:
  assumes "0 \<le> chi"
  shows "normalizeScore (1 / (1 + chi)) 0 1 = 1 / (1 + chi)"
proof -
  have "0 \<le> 1 / (1 + chi)" and "1 / (1 + chi) \<le> 1" using assms by simp_all
  then show ?thesis by (simp add: normalizeScore_def)
qed

lemma map_get_fun: "map_get d m = (\<lambda>k. case map_of m k of None \<Rightarrow> d | Some v \<Rightarrow> v)"
  by (simp add: fun_eq_iff map_get_def)

lemma calculateBigramScore_fit:
  "calculateBigramScore t
     = (if length (normalizeText t) < 1 then Inl OutOfRange else Inr (ngramFit 2 bigramFreq t))"
  by (simp add: calculateBigramScore_def ngramFit_def substr_def map_get_fun Let_def)

lemma calculateTrigramScore_fit:
  "calculateTrigramScore t
     = (if length (normalizeText t) < 2 then Inl OutOfRange else Inr (ngramFit 3 trigramFreq t))"
proof -
  have "length (normalizeText t) + 1 - 3 = length (normalizeText t) - 2" by simp
  then show ?thesis
    by (simp add: calculateTrigramScore_def ngramFit_def substr_def map_get_fun Let_def)
qed

text \<open>
  The words that \<open>calculateWordScore\<close> counts are the tokens between blanks, each reduced
  to its letters in upper case: these are the whitespace-delimited tokens of the text
  reduced to its letters and blanks.
\<close>

lemma isspace_code: "isspace c \<Longrightarrow> (of_char c :: nat) \<le> 32"
  unfolding isspace_def by auto

lemma upper_not_space: "isalpha c \<Longrightarrow> \<not> isspace (toupper c)"
  using toupper_isupper [of c] isspace_code [of "toupper c"] by (auto simp: isupper_def)

lemma blank_facts: "isspace (CHR '' '')" "\<not> isalpha (CHR '' '')" "toupper (CHR '' '') = CHR '' ''"
  by (simp_all add: isspace_def isalpha_def isupper_def islower_def toupper_def)

lemma normalizeText_snoc:
  "normalizeText (cur @ [c]) = normalizeText cur @ (if isalpha c then [toupper c] else [])"
  by (simp add: normalizeText_def toUpperCase_def removeNonAlpha_def)

lemma tokens_normalized:
  "filter (\<lambda>w. w \<noteq> []) (map normalizeText (tokens (CHR '' '') cur t))
     = whitespace_tokens (normalizeText cur) (letters_and_blanks t)"
proof (induction t arbitrary: cur)
  case Nil
  then show ?case by (simp add: letters_and_blanks_def)
next
  case (Cons c t)
  show ?case
  proof (cases "c = CHR '' ''")
    case True
    have "letters_and_blanks (c # t) = CHR '' '' # letters_and_blanks t"
      using True by (simp add: letters_and_blanks_def blank_facts)
    then show ?thesis using True Cons [of "[]"]
      by (simp add: blank_facts normalizeText_def toUpperCase_def removeNonAlpha_def)
  next
    case False
    show ?thesis
    proof (cases "isalpha c")
      case True
      have "letters_and_blanks (c # t) = toupper c # letters_and_blanks t"
        using True by (simp add: letters_and_blanks_def)
      then show ?thesis using False True Cons [of "cur @ [c]"]
        by (simp add: normalizeText_snoc upper_not_space)
    next
      case na: False
      have "letters_and_blanks (c # t) = letters_and_blanks t"
        using False na by (simp add: letters_and_blanks_def)
      then show ?thesis using False na Cons [of "cur @ [c]"]
        by (simp add: normalizeText_snoc)
    qed
  qed
qed

lemma long_tokens:
  assumes "f [] = []"
  shows "filter (\<lambda>w. 3 \<le> length w) (map f (filter (\<lambda>w. w \<noteq> []) ts))
       = filter (\<lambda>w. 3 \<le> length w) (filter (\<lambda>w. w \<noteq> []) (map f ts))"
  using assms by (induction ts) auto

lemma calculateWordScore_fit: "calculateWordScore t = wordFit (letters_and_blanks t)"
proof -
  let ?ts = "tokens (CHR '' '') [] t"
  have n: "normalizeText [] = []"
    by (simp add: normalizeText_def toUpperCase_def removeNonAlpha_def)
  have "filter (\<lambda>w. 3 \<le> length w) (map normalizeText (split t (CHR '' '')))
      = filter (\<lambda>w. 3 \<le> length w) (filter (\<lambda>w. w \<noteq> []) (map normalizeText ?ts))"
    unfolding split_def using n by (rule long_tokens [of normalizeText])
  also have "\<dots> = filter (\<lambda>w. 3 \<le> length w) (whitespace_tokens [] (letters_and_blanks t))"
    using tokens_normalized [of "[]" t] by (simp only: n)
  finally show ?thesis
    by (simp add: calculateWordScore_def wordFit_def Let_def)
qed

text \<open>The other three parts of the fitness do not change when a text is so reduced.\<close>

lemma toupper_toupper: "isalpha c \<Longrightarrow> isalpha (toupper c) \<and> toupper (toupper c) = toupper c"
  using toupper_isupper [of c] not_upper_and_lower [of "toupper c"]
  by (auto simp: isalpha_def toupper_def)

lemma normalizeText_reduced: "normalizeText (letters_and_blanks t) = normalizeText t"
  by (induction t)
    (auto simp: normalizeText_def toUpperCase_def removeNonAlpha_def letters_and_blanks_def
      blank_facts toupper_toupper)

lemma countChar_toupper: "isalpha c \<Longrightarrow> countChar acc (toupper c) = countChar acc c"
  by (simp add: countChar_def toupper_toupper split: prod.splits)

lemma countChar_other: "\<not> isalpha c \<Longrightarrow> countChar acc c = acc"
  by (simp add: countChar_def split: prod.splits)

lemma foldl_countChar_reduced:
  "foldl countChar acc (letters_and_blanks t) = foldl countChar acc t"
proof (induction t arbitrary: acc)
  case Nil
  then show ?case by (simp add: letters_and_blanks_def)
next
  case (Cons c t)
  show ?case
  proof (cases "isalpha c")
    case True
    then have "letters_and_blanks (c # t) = toupper c # letters_and_blanks t"
      by (simp add: letters_and_blanks_def)
    then show ?thesis using True Cons by (simp add: countChar_toupper)
  next
    case False
    show ?thesis
    proof (cases "c = CHR '' ''")
      case True
      then have "letters_and_blanks (c # t) = CHR '' '' # letters_and_blanks t"
        by (simp add: letters_and_blanks_def blank_facts)
      then show ?thesis using True Cons by (simp add: countChar_other blank_facts)
    next
      case nb: False
      then have "letters_and_blanks (c # t) = letters_and_blanks t"
        using False by (simp add: letters_and_blanks_def)
      then show ?thesis using False Cons by (simp add: countChar_other)
    qed
  qed
qed

lemma scoreEnglishness_reduced: "scoreEnglishness (letters_and_blanks t) = scoreEnglishness t"
  by (simp add: scoreEnglishness_def calculateFrequency_def countLetters_def
      foldl_countChar_reduced)

lemma ngramFit_reduced: "ngramFit n table (letters_and_blanks t) = ngramFit n table t"
  by (simp add: ngramFit_def normalizeText_reduced)

lemma letters_and_blanks_id:
  "list_all (\<lambda>c. isupper c \<or> c = CHR '' '') t \<Longrightarrow> letters_and_blanks t = t"
proof (induction t)
  case Nil
  then show ?case by (simp add: letters_and_blanks_def)
next
  case (Cons c t)
  have "isupper c \<or> c = CHR '' ''" using Cons.prems by simp
  then have "toupper c = c"
  proof
    assume "isupper c"
    then show ?thesis using not_upper_and_lower [of c] by (simp add: toupper_def)
  next
    assume "c = CHR '' ''"
    then show ?thesis by (simp add: blank_facts)
  qed
  moreover have "isalpha c \<or> c = CHR '' ''" using Cons.prems by (auto simp: isalpha_def)
  ultimately show ?case using Cons by (simp add: letters_and_blanks_def)
qed

text \<open>
  Claim C2, as the code has it. Only \<open>SubstitutionBreaker\<close> scores a candidate with
  the fitness function \<open>0.3*unigramFit + 0.3*bigramFit + 0.2*trigramFit + 0.2*wordFit\<close>,
  and it does so on a candidate with at least two letters, with the word fit taken of
  the candidate reduced to its letters, in upper case, and its blanks: a token ends at
  a blank only, and what is looked up in the common-word set are the letters of the
  token in upper case. On a candidate of upper-case letters and blanks only this is
  the fitness of the candidate as it stands. On a candidate with fewer than two letters
  the n-gram loops run out of range. \<open>CaesarBreaker\<close> scores a candidate of at least the
  minimum length with \<open>0.5 * 1/(1 + chiSquared) + 0.3 * icScore + 0.2 * patternScore\<close>,
  and a shorter one with 0. \<open>VigenereBreaker\<close> scores a candidate with the englishness
  score alone.
\<close>

theorem solver_scoring_functions:
  "SubstitutionBreaker_scorePlaintext text
     = (if length (normalizeText text) < 2 then Inl OutOfRange
        else Inr (fitness (letters_and_blanks text)))
   \<and> (list_all (\<lambda>c. isupper c \<or> c = CHR '' '') text \<longrightarrow> letters_and_blanks text = text)
   \<and> scoreText cb text
     = (if int (length text) < minTextLength cb then Inr 0
        else case checkCommonPatterns text of
               Inl e \<Rightarrow> Inl e
             | Inr patternScore \<Rightarrow>
                 Inr (0.5 * (1 / (1 + calculateChiSquared cb text))
                      + 0.3 * calculateICScore text
                      + 0.2 * patternScore))
   \<and> VigenereBreaker_scorePlaintext text = scoreEnglishness text"
proof -
  have a: "SubstitutionBreaker_scorePlaintext text
     = (if length (normalizeText text) < 2 then Inl OutOfRange
        else Inr (fitness (letters_and_blanks text)))"
    by (auto simp add: SubstitutionBreaker_scorePlaintext_def calculateBigramScore_fit
        calculateTrigramScore_fit calculateWordScore_fit calculateCombinedScore_def
        fitness_def Let_def scoreEnglishness_reduced ngramFit_reduced)
  have a': "list_all (\<lambda>c. isupper c \<or> c = CHR '' '') text \<longrightarrow> letters_and_blanks text = text"
    using letters_and_blanks_id by blast
  have b: "scoreText cb text
     = (if int (length text) < minTextLength cb then Inr 0
        else case checkCommonPatterns text of
               Inl e \<Rightarrow> Inl e
             | Inr patternScore \<Rightarrow>
                 Inr (0.5 * (1 / (1 + calculateChiSquared cb text))
                      + 0.3 * calculateICScore text
                      + 0.2 * patternScore))"
  proof (cases "checkCommonPatterns text")
    case (Inl e)
    then show ?thesis by (simp add: scoreText_def Let_def)
  next
    case (Inr p)
    have "normalizeScore (1 / (1 + calculateChiSquared cb text)) 0 1 * 0.5
            + calculateICScore text * 0.3 + p * 0.2
          = 0.5 * (1 / (1 + calculateChiSquared cb text))
            + 0.3 * calculateICScore text + 0.2 * p"
      by (simp only: normalizeScore_unit [OF calculateChiSquared_nonneg] mult.commute)
    then show ?thesis using Inr by (simp add: scoreText_def Let_def del: times_divide_eq_left times_divide_eq_right)
  qed
  have c: "VigenereBreaker_scorePlaintext text = scoreEnglishness text"
    by (simp add: VigenereBreaker_scorePlaintext_def)
  show ?thesis using a a' b c by (intro conjI)
qed

theorem solver_scoring_functions_witness:
  "list_all (\<lambda>c. isupper c \<or> c = CHR '' '') ''THE CAT''
   \<and> SubstitutionBreaker_scorePlaintext ''THE CAT'' = Inr (fitness ''THE CAT'')
   \<and> SubstitutionBreaker_scorePlaintext ''A'' = Inl OutOfRange
   \<and> scoreText new_CaesarBreaker ''HI'' = Inr 0"
proof -
  have u: "list_all (\<lambda>c. isupper c \<or> c = CHR '' '') ''THE CAT''" by code_simp
  have l3: "\<not> length (normalizeText ''THE CAT'') < 2" by code_simp
  have l1: "length (normalizeText ''A'') < 2" by code_simp
  have l2: "int (length ''HI'') < minTextLength new_CaesarBreaker" by code_simp
  note t = solver_scoring_functions [of "''THE CAT''" new_CaesarBreaker]
  have "letters_and_blanks ''THE CAT'' = ''THE CAT''"
    using t [THEN conjunct2, THEN conjunct1] u by blast
  then have "SubstitutionBreaker_scorePlaintext ''THE CAT'' = Inr (fitness ''THE CAT'')"
    using t [THEN conjunct1] l3 by (simp only: if_False)
  moreover have "SubstitutionBreaker_scorePlaintext ''A'' = Inl OutOfRange"
    using solver_scoring_functions [of "''A''" new_CaesarBreaker, THEN conjunct1] l1
    by (simp only: if_True)
  moreover have "scoreText new_CaesarBreaker ''HI'' = Inr 0"
    using solver_scoring_functions [of "''HI''" new_CaesarBreaker, THEN conjunct2, THEN conjunct2,
        THEN conjunct1] l2
    by (simp only: if_True)
  ultimately show ?thesis using u by (intro conjI)
qed

text \<open>
  Claim C2 as the specification words it (every solver scores with the one fitness
  function) fails: on \<open>"THE CAT AND THE DOGS"\<close> neither the score of \<open>CaesarBreaker\<close>
  nor that of \<open>VigenereBreaker\<close> is the fitness value. The score of
  \<open>SubstitutionBreaker\<close> is not the fitness value on \<open>"THIS, THAT"\<close>: it counts the
  token \<open>"THIS,"\<close> as the common word \<open>"THIS"\<close>, so its word fit is 1 where the fraction
  of the tokens found verbatim is 1/2.
\<close>

theorem not_one_fitness_function_counterexample:
  "scoreText new_CaesarBreaker ''THE CAT AND THE DOGS''
     \<noteq> Inr (fitness ''THE CAT AND THE DOGS'')
   \<and> VigenereBreaker_scorePlaintext ''THE CAT AND THE DOGS''
     \<noteq> fitness ''THE CAT AND THE DOGS''
   \<and> SubstitutionBreaker_scorePlaintext ''THIS, THAT'' \<noteq> Inr (fitness ''THIS, THAT'')
   \<and> calculateWordScore ''THIS, THAT'' = 1
   \<and> wordFit ''THIS, THAT'' = 1 / 2"
proof -
  have "scoreText new_CaesarBreaker ''THE CAT AND THE DOGS''
     \<noteq> Inr (fitness ''THE CAT AND THE DOGS'')"
    by code_simp
  moreover have "VigenereBreaker_scorePlaintext ''THE CAT AND THE DOGS''
     \<noteq> fitness ''THE CAT AND THE DOGS''"
    by code_simp
  moreover have "SubstitutionBreaker_scorePlaintext ''THIS, THAT'' \<noteq> Inr (fitness ''THIS, THAT'')"
    by code_simp
  moreover have "calculateWordScore ''THIS, THAT'' = 1" by code_simp
  moreover have "wordFit ''THIS, THAT'' = 1 / 2" by code_simp
  ultimately show ?thesis by (intro conjI)
qed

section \<open>Substitution mappings\<close>

text \<open>
  Three of the four places that build or change a mapping keep it a permutation of the
  alphabet: the completion of the seed mapping, the exchange that produces a neighbour,
  and with it hill climbing.
\<close>

lemma drawDistinct_other:
  "drawDistinct n idx1 rs = Inr (idx2, rs') \<Longrightarrow> 0 < n \<Longrightarrow> idx2 \<noteq> idx1 \<and> idx2 < n"
  by (induction rs) (auto split: if_splits)

lemma map_put_at:
  assumes "sorted_wrt (<) (map fst m)" and "i < length m"
  shows "map_put (fst (m ! i)) v m = m[i := (fst (m ! i), v)]"
  using assms
proof (induction m arbitrary: i)
  case Nil
  then show ?case by simp
next
  case (Cons p m)
  obtain k' v' where p: "p = (k', v')" by (cases p)
  have tl: "sorted_wrt (<) (map fst m)" and hd: "\<forall>x \<in> set m. k' < fst x"
    using Cons.prems(1) unfolding p by auto
  show ?case
  proof (cases i)
    case 0
    then show ?thesis unfolding p by simp
  next
    case (Suc j)
    then have j: "j < length m" using Cons.prems(2) by simp
    then have "k' < fst (m ! j)" using hd by simp
    then have "\<not> fst (m ! j) < k'" and "fst (m ! j) \<noteq> k'" by auto
    then show ?thesis using Suc Cons.IH [OF tl j] unfolding p by simp
  qed
qed

lemma map_get_at:
  assumes "distinct (map fst m)" and "i < length m"
  shows "map_get d m (fst (m ! i)) = snd (m ! i)"
proof -
  have "map_of m (fst (m ! i)) = Some (snd (m ! i))"
    using assms by (simp add: map_of_eq_Some_iff)
  then show ?thesis by (simp add: map_get_def)
qed

lemma permutation_values:
  assumes "mset vs' = mset vs" and "distinct vs" and "set vs = S"
  shows "distinct vs' \<and> set vs' = S"
  using assms by (metis mset_eq_imp_distinct_iff mset_eq_setD)

lemma letters_A_Z_sorted: "sorted_wrt (<) letters_A_Z"
  unfolding letters_A_Z_def by code_simp

lemma letters_A_Z_length: "length letters_A_Z = 26"
  unfolding letters_A_Z_def by simp

text \<open>
  A neighbour of a permutation is a permutation: \<open>generateNeighborMapping\<close> exchanges
  the plain letters of two different cipher letters.
\<close>

lemma generateNeighborMapping_permutation:
  assumes "is_permutation_mapping mapping"
    and "generateNeighborMapping mapping rs = Inr (neighbor, rs')"
  shows "is_permutation_mapping neighbor"
proof -
  have keys: "map fst mapping = letters_A_Z" and dv: "distinct (map snd mapping)"
    and sv: "set (map snd mapping) = set letters_A_Z"
    using assms(1) by (simp_all add: is_permutation_mapping_def)
  have len: "length mapping = 26"
    using keys letters_A_Z_length by (metis length_map)
  have srt: "sorted_wrt (<) (map fst mapping)"
    using keys letters_A_Z_sorted by simp
  have dk: "distinct (map fst mapping)"
    using srt strict_sorted_iff by blast
  obtain r1 rs1 idx2 where rs: "rs = r1 # rs1"
    and draw: "drawDistinct 26 (r1 mod 26) rs1 = Inr (idx2, rs')"
    and nb: "neighbor =
      map_put (fst (mapping ! idx2)) (map_get (CHR 0x00) mapping (fst (mapping ! (r1 mod 26))))
        (map_put (fst (mapping ! (r1 mod 26))) (map_get (CHR 0x00) mapping (fst (mapping ! idx2)))
           mapping)"
    using assms(2) len
    by (auto simp add: generateNeighborMapping_def Let_def drawDistinct_other
        split: list.splits sum.splits)
  define i where "i = r1 mod 26"
  have i: "i < length mapping" using len by (simp add: i_def)
  have j: "idx2 < length mapping" and ij: "idx2 \<noteq> i"
    using drawDistinct_other [OF draw] len by (simp_all add: i_def)
  let ?m1 = "mapping[i := (fst (mapping ! i), snd (mapping ! idx2))]"
  have m1: "map_put (fst (mapping ! i)) (map_get (CHR 0x00) mapping (fst (mapping ! idx2))) mapping
            = ?m1"
    by (simp only: map_get_at [OF dk j] map_put_at [OF srt i])
  have fi: "fst (mapping ! i) = map fst mapping ! i" using i by simp
  have fj': "fst (mapping ! idx2) = map fst mapping ! idx2" using j by simp
  have k1: "map fst ?m1 = map fst mapping"
    by (simp only: map_update fst_conv fi list_update_id)
  have j1: "idx2 < length ?m1" using j by simp
  have srt1: "sorted_wrt (<) (map fst ?m1)" using srt k1 by simp
  have fj: "fst (?m1 ! idx2) = fst (mapping ! idx2)" using ij j by simp
  have "neighbor = ?m1[idx2 := (fst (mapping ! idx2), snd (mapping ! i))]"
    using map_put_at [OF srt1 j1, of "snd (mapping ! i)"] 
    unfolding nb i_def [symmetric] m1 map_get_at [OF dk i] fj .
  then have nb': "neighbor = mapping[i := (fst (mapping ! i), snd (mapping ! idx2)),
                                     idx2 := (fst (mapping ! idx2), snd (mapping ! i))]" .
  have kn: "map fst neighbor = map fst mapping"
    unfolding nb' by (simp only: map_update fst_conv fi fj' list_update_id)
  have vn: "map snd neighbor = (map snd mapping)[i := map snd mapping ! idx2,
                                                 idx2 := map snd mapping ! i]"
    unfolding nb' using i j by (simp add: map_update)
  have "mset (map snd neighbor) = mset (map snd mapping)"
    unfolding vn by (rule mset_swap) (use i j in simp_all)
  from permutation_values [OF this dv sv] kn keys show ?thesis
    by (simp add: is_permutation_mapping_def)
qed

lemma letters_A_Z_distinct: "distinct letters_A_Z"
  using letters_A_Z_sorted strict_sorted_iff by blast

lemma isupper_letter: "isupper c \<Longrightarrow> c \<in> set letters_A_Z"
proof -
  assume "isupper c"
  then have "65 \<le> (of_char c :: nat) \<and> (of_char c :: nat) < 91" by (simp add: isupper_def)
  then have "(of_char c :: nat) \<in> set [65 ..< 91]" by (simp only: set_upt atLeastLessThan_iff)
  then have "char_of (of_char c :: nat) \<in> set letters_A_Z"
    unfolding letters_A_Z_def by (simp only: set_map image_eqI)
  then show ?thesis by simp
qed

lemma map_put_new_mset:
  "k \<notin> set (map fst m) \<Longrightarrow> mset (map_put k v m) = add_mset (k, v) (mset m)"
  by (induction m) auto

lemma foldl_map_put_sorted:
  "sorted_wrt (<) (map fst m) \<Longrightarrow>
     sorted_wrt (<) (map fst (foldl (\<lambda>result (c, p). map_put c p result) m ps))"
  by (induction ps arbitrary: m) (auto simp: map_put_sorted)

lemma foldl_map_put_mset:
  assumes "distinct (map fst ps)" and "set (map fst ps) \<inter> set (map fst m) = {}"
  shows "mset (foldl (\<lambda>result (c, p). map_put c p result) m ps) = mset m + mset ps"
  using assms
proof (induction ps arbitrary: m)
  case Nil
  then show ?case by simp
next
  case (Cons q ps)
  obtain c p where q: "q = (c, p)" by (cases q)
  have new: "c \<notin> set (map fst m)" using Cons.prems(2) unfolding q by auto
  have d: "distinct (map fst ps)" and c: "c \<notin> set (map fst ps)"
    using Cons.prems(1) unfolding q by auto
  have "set (map fst ps) \<inter> set (map fst (map_put c p m)) = {}"
    unfolding map_put_keys using Cons.prems(2) c unfolding q by auto
  from Cons.IH [OF d this] show ?case
    unfolding q by (simp add: map_put_new_mset [OF new])
qed

lemma unused_letters:
  assumes "distinct xs" and "set xs \<subseteq> set letters_A_Z"
  shows "mset xs + mset (filter (\<lambda>c. c \<notin> set xs) letters_A_Z) = mset letters_A_Z"
proof -
  let ?ys = "xs @ filter (\<lambda>c. c \<notin> set xs) letters_A_Z"
  have "distinct ?ys" using assms(1) letters_A_Z_distinct by auto
  moreover have "set ?ys = set letters_A_Z" using assms(2) by auto
  ultimately have "mset ?ys = mset letters_A_Z"
    using letters_A_Z_distinct set_eq_iff_mset_eq_distinct by blast
  then show ?thesis by simp
qed

text \<open>
  \<open>completeMapping\<close> turns a partial one-to-one mapping between letters into a
  permutation of the alphabet: it pairs the cipher letters without an entry with
  the plain letters that no entry uses, and there are as many of the ones as of the
  others.
\<close>

lemma completeMapping_permutation:
  assumes srt: "sorted_wrt (<) (map fst mapping)"
    and keys: "set (map fst mapping) \<subseteq> set letters_A_Z"
    and dv: "distinct (map snd mapping)"
    and vals: "set (map snd mapping) \<subseteq> set letters_A_Z"
  shows "is_permutation_mapping (completeMapping mapping)"
proof -
  define uc where "uc = filter (\<lambda>c. c \<notin> set (map fst mapping)) letters_A_Z"
  define up where "up = filter (\<lambda>c. c \<notin> set (map snd mapping)) letters_A_Z"
  define r where "r = foldl (\<lambda>result (c, p). map_put c p result) mapping (zip uc up)"
  have cm: "completeMapping mapping = r"
    unfolding completeMapping_def Let_def r_def uc_def up_def
    by (simp only: map_of_None_iff)
  have dk: "distinct (map fst mapping)" using srt strict_sorted_iff by blast
  have mk: "mset (map fst mapping) + mset uc = mset letters_A_Z"
    unfolding uc_def by (rule unused_letters [OF dk keys])
  have mv: "mset (map snd mapping) + mset up = mset letters_A_Z"
    unfolding up_def by (rule unused_letters [OF dv vals])
  have "size (mset (map fst mapping) + mset uc) = size (mset (map snd mapping) + mset up)"
    unfolding mk mv ..
  then have len: "length uc = length up" by simp
  have zk: "map fst (zip uc up) = uc" and zv: "map snd (zip uc up) = up"
    using len by simp_all
  have "distinct uc" unfolding uc_def using letters_A_Z_distinct by simp
  moreover have "set uc \<inter> set (map fst mapping) = {}" unfolding uc_def by auto
  ultimately have "mset r = mset mapping + mset (zip uc up)"
    unfolding r_def by (intro foldl_map_put_mset) (simp_all only: zk)
  then have "mset (map fst r) = mset (map fst mapping) + mset (map fst (zip uc up))"
    and "mset (map snd r) = mset (map snd mapping) + mset (map snd (zip uc up))"
    by (simp_all only: mset_map image_mset_union)
  then have rk: "mset (map fst r) = mset letters_A_Z"
    and rv: "mset (map snd r) = mset letters_A_Z"
    unfolding zk zv mk mv by simp_all
  have "sorted_wrt (<) (map fst r)"
    unfolding r_def by (rule foldl_map_put_sorted [OF srt])
  moreover have "set (map fst r) = set letters_A_Z" using rk by (rule mset_eq_setD)
  ultimately have "map fst r = letters_A_Z"
    using letters_A_Z_sorted strict_sorted_equal by blast
  moreover have "distinct (map snd r) \<and> set (map snd r) = set letters_A_Z"
    using rv letters_A_Z_distinct by (rule permutation_values) simp
  ultimately show ?thesis unfolding cm by (simp add: is_permutation_mapping_def)
qed

lemma language_table_keys:
  "distinct (map fst (getLanguageFrequencies language))
   \<and> set (map fst (getLanguageFrequencies language)) \<subseteq> set letters_A_Z"
proof -
  have e: "distinct (map fst english_frequencies)
           \<and> set (map fst english_frequencies) \<subseteq> set letters_A_Z"
    by code_simp
  have t: "distinct (map fst turkish_frequencies)
           \<and> set (map fst turkish_frequencies) \<subseteq> set letters_A_Z"
    by code_simp
  consider "language = ''english''" | "language = ''turkish''"
    | "language \<noteq> ''english''" and "language \<noteq> ''turkish''" by blast
  then show ?thesis
  proof cases
    case 1
    then show ?thesis
      using e by (simp add: getLanguageFrequencies_def languageFrequencies_def map_get_def)
  next
    case 2
    then show ?thesis
      using t by (simp add: getLanguageFrequencies_def languageFrequencies_def map_get_def)
  next
    case 3
    then show ?thesis
      by (simp add: getLanguageFrequencies_def languageFrequencies_def map_get_def)
  qed
qed

lemma calculateFrequency_keys:
  "distinct (map fst (calculateFrequency t))
   \<and> set (map fst (calculateFrequency t)) \<subseteq> set letters_A_Z"
proof -
  obtain counts total where cl: "countLetters t = (counts, total)" by (cases "countLetters t")
  have srt: "sorted_wrt (<) (map fst counts)" and ks: "set (map fst counts) = toupper ` {c \<in> set t. isalpha c}"
    using countLetters_facts(1,3) [of t] unfolding cl by simp_all
  have d: "distinct (map fst counts)" using srt strict_sorted_iff by blast
  have s: "set (map fst counts) \<subseteq> set letters_A_Z"
    unfolding ks using toupper_isupper isupper_letter by blast
  show ?thesis
  proof (cases "total = 0")
    case True
    then show ?thesis by (simp add: calculateFrequency_def cl normalizeFrequencies_def)
  next
    case False
    then have "calculateFrequency t = map (\<lambda>(c, n). (c, percentage n total)) counts"
      by (simp only: calculateFrequency_def cl normalizeFrequencies_def prod.case if_False)
    then have "map fst (calculateFrequency t) = map fst counts"
      by (simp only: map_fst_scaled)
    then show ?thesis using d s by simp
  qed
qed

lemma sort_by_score_fst:
  "distinct (map fst (sort_by_score xs)) = distinct (map fst xs)"
  "set (map fst (sort_by_score xs)) = set (map fst xs)"
proof -
  have "mset (map fst (sort_by_score xs)) = mset (map fst xs)"
    by (simp add: sort_by_score_def)
  then show "distinct (map fst (sort_by_score xs)) = distinct (map fst xs)"
    by (rule mset_eq_imp_distinct_iff)
  show "set (map fst (sort_by_score xs)) = set (map fst xs)"
    by (simp add: sort_by_score_def)
qed

lemma foldl_pairs:
  "foldl (\<lambda>m (c, e). map_put (fst c) (fst e) m) m0 (zip cs es)
     = foldl (\<lambda>result (c, p). map_put c p result) m0 (zip (map fst cs) (map fst es))"
proof (induction cs arbitrary: es m0)
  case Nil
  then show ?case by simp
next
  case (Cons c cs)
  then show ?case by (cases es) simp_all
qed

text \<open>
  The seed mapping of \<open>generateMapping\<close> is a permutation of the alphabet, for every
  ciphertext and language.
\<close>

lemma generateMapping_permutation: "is_permutation_mapping (generateMapping language ciphertext)"
proof -
  define ks where "ks = map fst (sort_by_score (calculateFrequency (normalizeText ciphertext)))"
  define vs where "vs = map fst (sort_by_score (getLanguageFrequencies language))"
  define m where "m = foldl (\<lambda>result (c, p). map_put c p result) [] (zip ks vs)"
  have gm: "generateMapping language ciphertext = completeMapping m"
    unfolding generateMapping_def Let_def m_def ks_def vs_def by (simp only: foldl_pairs)
  have dks: "distinct ks" and sks: "set ks \<subseteq> set letters_A_Z"
    unfolding ks_def sort_by_score_fst using calculateFrequency_keys by simp_all
  have dvs: "distinct vs" and svs: "set vs \<subseteq> set letters_A_Z"
    unfolding vs_def sort_by_score_fst using language_table_keys by simp_all
  define n where "n = min (length ks) (length vs)"
  have zk: "map fst (zip ks vs) = take n ks"
    and zv: "map snd (zip ks vs) = take n vs"
    unfolding n_def by (simp_all only: map_fst_zip_take map_snd_zip_take)
  have "distinct (map fst (zip ks vs))" unfolding zk using dks by simp
  then have "mset m = mset [] + mset (zip ks vs)"
    unfolding m_def by (intro foldl_map_put_mset) simp_all
  then have mk: "mset (map fst m) = mset (take n ks)"
    and mv: "mset (map snd m) = mset (take n vs)"
    unfolding zk [symmetric] zv [symmetric] by simp_all
  have "set (map fst m) = set (take n ks)" using mk by (rule mset_eq_setD)
  moreover have "set (map snd m) = set (take n vs)" using mv by (rule mset_eq_setD)
  moreover have "distinct (map snd m) = distinct (take n vs)"
    using mv by (rule mset_eq_imp_distinct_iff)
  ultimately have "set (map fst m) \<subseteq> set ks" and "set (map snd m) \<subseteq> set vs"
    and "distinct (map snd m)"
    using dvs by (auto dest: in_set_takeD)
  then have keys: "set (map fst m) \<subseteq> set letters_A_Z"
    and vals: "set (map snd m) \<subseteq> set letters_A_Z"
    and dv: "distinct (map snd m)"
    using sks svs by auto
  have srt: "sorted_wrt (<) (map fst m)"
    unfolding m_def by (rule foldl_map_put_sorted) simp
  show ?thesis unfolding gm by (rule completeMapping_permutation [OF srt keys dv vals])
qed

lemma hillClimbStep_permutation:
  assumes "is_permutation_mapping (currentMapping st)"
    and "hillClimbStep ciphertext iteration st = Inr st'"
  shows "is_permutation_mapping (currentMapping st')"
proof (cases "generateNeighborMapping (currentMapping st) (climb_rng st)")
  case (Inl e)
  then show ?thesis using assms(2) by (simp add: hillClimbStep_def)
next
  case (Inr r)
  obtain neighbor rs where r: "r = (neighbor, rs)" by (cases r)
  have nb: "is_permutation_mapping neighbor"
    using generateNeighborMapping_permutation [OF assms(1)] Inr unfolding r by simp
  have "currentMapping st' = neighbor \<or> currentMapping st' = currentMapping st"
    using assms(2) Inr unfolding r
    by (auto simp: hillClimbStep_def split: sum.splits if_splits)
  then show ?thesis using nb assms(1) by auto
qed

lemma hillClimbLoop_permutation:
  assumes "is_permutation_mapping (currentMapping st)"
    and "snd (hillClimbLoop ciphertext iteration n st) = Inr st'"
  shows "is_permutation_mapping (currentMapping st')"
  using assms
proof (induction n arbitrary: st iteration)
  case 0
  then show ?case by simp
next
  case (Suc n)
  show ?case
  proof (cases "hillClimbStep ciphertext iteration st")
    case (Inl e)
    then show ?thesis using Suc.prems(2) by (simp only: hillClimbLoop_Suc_Inl) simp
  next
    case (Inr st1)
    have p1: "is_permutation_mapping (currentMapping st1)"
      by (rule hillClimbStep_permutation [OF Suc.prems(1) Inr])
    have "snd (hillClimbLoop ciphertext (iteration + 1) n st1) = Inr st'"
      using Suc.prems(2) by (simp only: hillClimbLoop_Suc_Inr [OF Inr])
    then show ?thesis by (rule Suc.IH [OF p1])
  qed
qed

text \<open>
  Hill climbing started from a permutation returns a permutation: every mapping it
  accepts is a neighbour of the one before.
\<close>

lemma hillClimbOptimization_permutation:
  assumes "is_permutation_mapping initialMapping"
    and "snd (hillClimbOptimization sb initialMapping ciphertext maxIter) = Inr (result, sb')"
  shows "is_permutation_mapping result"
proof (cases "scoreMapping initialMapping ciphertext")
  case (Inl e)
  then show ?thesis using assms(2) by (simp only: hillClimbOptimization_Inl) simp
next
  case (Inr score0)
  let ?st0 = "\<lparr>currentMapping = initialMapping, currentScore = score0,
                improvementCount = 0, climb_rng = rng sb,
                climb_history = optimizationHistory sb\<rparr>"
  obtain st where st: "snd (hillClimbLoop ciphertext 0 (nat maxIter) ?st0) = Inr st"
    and res: "result = currentMapping st"
    using assms(2) unfolding hillClimbOptimization_Inr(2) [OF Inr]
    by (auto split: sum.splits)
  have "is_permutation_mapping (currentMapping ?st0)" using assms(1) by simp
  then show ?thesis unfolding res using st by (rule hillClimbLoop_permutation)
qed

text \<open>
  Claim C4 at the ciphertext \<open>"QZ"\<close>, on the default (hybrid) path. The completed seed
  mapping is a permutation of the 26 letters: it sends Q to E and Z to T and fills in
  the other letters in order, so that G goes to H. Bigram refinement then finds that
  sending Q to T and Z to H scores higher and stores these two entries, without giving
  the letters they displace a new place: in the mapping it returns both G and Z go to H
  and no cipher letter goes to E, so it is not a permutation.
\<close>

theorem bigram_refinement_breaks_permutation:
  "is_permutation_mapping (generateMapping ''english'' ''QZ'')
   \<and> (case improveMappingWithBigrams (generateMapping ''english'' ''QZ'') ''QZ'' of
         Inl e \<Rightarrow> False
       | Inr m \<Rightarrow>
           \<not> is_permutation_mapping m
           \<and> map_of m (CHR ''G'') = Some (CHR ''H'')
           \<and> map_of m (CHR ''Z'') = Some (CHR ''H'')
           \<and> CHR ''E'' \<notin> set (map snd m))"
  by code_simp

section \<open>Key-length detection\<close>








subsection \<open>Counting the factors of the distances\<close>












subsection \<open>Kasiski examination\<close>



subsection \<open>Index of Coincidence per key length\<close>






lemma columns_length: "length (columns t L) = L"
  by (simp add: columns_def)

lemma columns_nth:
  "p < L \<Longrightarrow> columns t L ! p = map (\<lambda>i. t ! i) (filter (\<lambda>i. i mod L = p) [0 ..< length t])"
  by (simp add: columns_def)








lemma column_long:
  assumes "0 < L" and "2 * L \<le> length t" and "p < L"
  shows "2 \<le> length (columns t L ! p)"
proof -
  let ?S = "{i. i < length [0 ..< length t] \<and> [0 ..< length t] ! i mod L = p}"
  have "{p, p + L} \<subseteq> ?S" using assms by auto
  moreover have "finite ?S" by simp
  ultimately have "card {p, p + L} \<le> card ?S" by (rule card_mono [rotated])
  moreover have "card {p, p + L} = 2" using assms(1) by simp
  moreover have "length (filter (\<lambda>i. i mod L = p) [0 ..< length t]) = card ?S"
    by (rule length_filter_conv_card)
  ultimately show ?thesis using assms(3) by (simp add: columns_nth)
qed

text \<open>
  On a text with at least \<open>2 L\<close> letters every column has two characters or more, and
  the two averages are the same.
\<close>

lemma averageIC_of_long_columns_eq:
  assumes "0 < L" and "2 * L \<le> length t"
  shows "averageIC_of_long_columns t L = averageIC t L"
proof -
  have "\<forall>c \<in> set (columns t L). 2 \<le> length c"
    using column_long [OF assms] by (auto simp: in_set_conv_nth columns_length)
  then have "filter (\<lambda>column. 2 \<le> length column) (columns t L) = columns t L"
    by simp
  moreover have "columns t L \<noteq> []" using assms(1) columns_length [of t L] by auto
  ultimately show ?thesis
    by (simp add: averageIC_of_long_columns_def averageIC_def columns_length)
qed

subsection \<open>Combining and ranking\<close>





end
